theory Spec2Isabelle
  imports Main "HOL-Library.AList"
begin

section \<open>Shared data: JavaScript values, errors, objects\<close>

text \<open>
  Session values are typed \<^verbatim>\<open>string | Object\<close> in the source. A JavaScript object used as a
  dictionary is an association list (keys in enumeration order); \<^verbatim>\<open>undefined\<close> is \<open>None\<close>.
  A thrown exception is a value of \<open>js_error\<close>, carried in the left summand of a result.
\<close>

datatype session_value = Str string | Obj "(string \<times> string) list"

datatype js_error = Error string

text \<open>JavaScript truthiness: the empty string is falsy, every object is truthy.\<close>

fun truthy :: "session_value \<Rightarrow> bool" where
  "truthy (Str s) = (s \<noteq> [])"
| "truthy (Obj kvs) = True"

text \<open>Truthiness of a possibly undefined value (\<^verbatim>\<open>if (value)\<close>, \<^verbatim>\<open>Boolean(value)\<close>).\<close>

fun truthy_opt :: "session_value option \<Rightarrow> bool" where
  "truthy_opt None = False"
| "truthy_opt (Some v) = truthy v"

type_synonym storage_entry = "(string \<times> session_value) list"

type_synonym storage_map = "(int \<times> storage_entry) list"

text \<open>
  \<^verbatim>\<open>SessionDataChangeInfo\<close>: the argument of the value-changed events
  (\<^verbatim>\<open>onTabSessionValueChanged\<close>, \<^verbatim>\<open>onTabTempValueChanged\<close>).
\<close>

record change_info =
  entryId :: int
  key :: string
  newValue :: "session_value option"


section \<open>common.js: constants\<close>

text \<open>From \<^verbatim>\<open>src/src/common/common.js\<close>.\<close>

definition kTAB_DATA_KEY_MARKED :: string where
  "kTAB_DATA_KEY_MARKED = ''marked''"

definition kCOLORS :: "(string \<times> string) list" where
  "kCOLORS =
    [(''blue'', ''#37adff''), (''turquoise'', ''#00c79a''), (''green'', ''#51cd00''),
     (''yellow'', ''#ffcb00''), (''orange'', ''#ff9f00''), (''red'', ''#ff613d''),
     (''pink'', ''#ff4bda''), (''purple'', ''#af51f5''), (''toolbar'', ''#686868'')]"

text \<open>\<^verbatim>\<open>Object.keys(obj)\<close> of a dictionary.\<close>

definition Object_keys :: "('k \<times> 'v) list \<Rightarrow> 'k list" where
  "Object_keys obj = map fst obj"


text \<open>
  \<^verbatim>\<open>Object.entries(obj)\<close> of a dictionary: the pairs in the order the list holds them. (For
  integer-like keys JavaScript enumerates in ascending order; no statement below depends on the
  order.)
\<close>

definition Object_entries :: "('k \<times> 'v) list \<Rightarrow> ('k \<times> 'v) list" where
  "Object_entries obj = obj"


section \<open>Ids as strings: \<^verbatim>\<open>String(id)\<close> and \<^verbatim>\<open>parseInt(text)\<close>\<close>

definition digit_char :: "nat \<Rightarrow> char" where
  "digit_char d = char_of (48 + d)"

function String_nat :: "nat \<Rightarrow> string" where
  "String_nat n =
    (if n < 10 then [digit_char n] else String_nat (n div 10) @ [digit_char (n mod 10)])"
  by pat_completeness auto
termination
  by (relation "measure id") auto

declare String_nat.simps [simp del]

text \<open>\<^verbatim>\<open>String(i)\<close> for an integer: decimal digits, with a minus sign when negative.\<close>

definition js_String :: "int \<Rightarrow> string" where
  "js_String i = (if i < 0 then CHR ''-'' # String_nat (nat (- i)) else String_nat (nat i))"

definition is_digit :: "char \<Rightarrow> bool" where
  "is_digit c = (48 \<le> (of_char c :: nat) \<and> (of_char c :: nat) \<le> 57)"

definition digit_val :: "char \<Rightarrow> nat" where
  "digit_val c = of_char c - 48"

definition parse_digits :: "string \<Rightarrow> nat option" where
  "parse_digits s =
    (let ds = takeWhile is_digit s
     in if ds = [] then None else Some (foldl (\<lambda>acc c. 10 * acc + digit_val c) 0 ds))"

text \<open>
  \<^verbatim>\<open>parseInt(s)\<close> on the strings ids are written as: an optional minus sign and the longest
  run of decimal digits; \<open>None\<close> is \<^verbatim>\<open>NaN\<close>. (Leading white space, a plus sign and the
  \<^verbatim>\<open>0x\<close> prefix, which \<^verbatim>\<open>String\<close> never produces, are left out.)
\<close>

definition parseInt :: "string \<Rightarrow> int option" where
  "parseInt s =
    (case s of
       c # r \<Rightarrow> if c = CHR ''-'' then map_option (\<lambda>n. - int n) (parse_digits r)
                else map_option int (parse_digits s)
     | [] \<Rightarrow> None)"


section \<open>marker-tab-data.js: marking a tab\<close>

text \<open>
  The module \<^verbatim>\<open>background/marker-tab-data.js\<close> is the second file of
  \<^verbatim>\<open>src/src/background/tst-custom-state-sync.js\<close>.
\<close>

text \<open>
  The observable effects of the module's functions, in the order they happen: calls of
  \<^verbatim>\<open>browser.sessions.setTabValue\<close> / \<^verbatim>\<open>removeTabValue\<close>, events fired, and
  \<^verbatim>\<open>console.error\<close> lines.
\<close>

datatype effect =
    SetTabValue int string session_value
  | RemoveTabValue int string
  | FireSessionValueChanged change_info
  | FireTempValueChanged change_info
  | ConsoleError

text \<open>The options object of \<^verbatim>\<open>createTabMark\<close>; both fields have defaults in the source.\<close>

record mark_options =
  forceSetSessionData :: bool
  notifyChange :: bool

definition default_mark_options :: mark_options where
  "default_mark_options = \<lparr>forceSetSessionData = False, notifyChange = True\<rparr>"

text \<open>
  What \<^verbatim>\<open>createTabMark\<close> gets from its collaborators: the module flag
  \<^verbatim>\<open>useSessionStorage\<close>, what \<^verbatim>\<open>await getTabMark(tabId)\<close> resolves to (it never rejects:
  \<^verbatim>\<open>null\<close> is \<open>None\<close>), and whether \<^verbatim>\<open>browser.sessions.setTabValue\<close> rejects.
\<close>

record mark_env =
  env_useSessionStorage :: bool
  env_getTabMark :: "int \<Rightarrow> session_value option"
  env_setTabValue :: "int \<Rightarrow> string \<Rightarrow> session_value \<Rightarrow> js_error option"

text \<open>
  The body of the \<^verbatim>\<open>try\<close> block of \<^verbatim>\<open>createTabMark\<close>: the effects so far, and either the
  exception that left the block or the returned boolean.
\<close>

definition createTabMark_try ::
  "mark_env \<Rightarrow> int \<Rightarrow> string \<Rightarrow> mark_options \<Rightarrow> effect list \<times> (js_error + bool)" where
  "createTabMark_try env tabId color opts =
    (if color \<notin> set (Object_keys kCOLORS) then
       ([], Inl (Error (''Tried to mark a tab with the unknown color \"'' @ color @ ''\"'')))
     else if \<not> forceSetSessionData opts \<and> env_getTabMark env tabId = Some (Str color) then
       ([], Inr True)
     else
       let changeDetails = \<lparr>entryId = tabId, key = kTAB_DATA_KEY_MARKED, newValue = Some (Str color)\<rparr>;
           notified = (if notifyChange opts then [FireTempValueChanged changeDetails] else [])
       in if env_useSessionStorage env \<or> forceSetSessionData opts then
            (case env_setTabValue env tabId kTAB_DATA_KEY_MARKED (Str color) of
               Some err \<Rightarrow> ([SetTabValue tabId kTAB_DATA_KEY_MARKED (Str color)], Inl err)
             | None \<Rightarrow>
                 ([SetTabValue tabId kTAB_DATA_KEY_MARKED (Str color),
                   FireSessionValueChanged changeDetails] @ notified, Inr True))
          else (notified, Inr True))"

text \<open>
  \<^verbatim>\<open>createTabMark\<close>: the \<^verbatim>\<open>catch\<close> clause logs the exception and falls through to
  \<^verbatim>\<open>return false\<close>. The result is what the returned promise settles to: \<open>Inl\<close> would be a
  rejection reaching the caller, \<open>Inr\<close> a resolved boolean.
\<close>

definition createTabMark ::
  "mark_env \<Rightarrow> int \<Rightarrow> string \<Rightarrow> mark_options \<Rightarrow> effect list \<times> (js_error + bool)" where
  "createTabMark env tabId color opts =
    (case createTabMark_try env tabId color opts of
       (effs, Inl err) \<Rightarrow> (effs @ [ConsoleError], Inr False)
     | (effs, Inr res) \<Rightarrow> (effs, Inr res))"


section \<open>session-data-cache.js: the class SessionDataCache\<close>

text \<open>The module \<^verbatim>\<open>common/session-data-cache.js\<close> is \<^verbatim>\<open>src/unnamed/part_000\<close>.\<close>

text \<open>
  The fields of a \<^verbatim>\<open>SessionDataCache\<close> that the functions below read or write:
  \<^verbatim>\<open>_monitoredKeys\<close>, \<^verbatim>\<open>_storage\<close> (entry id to the entry's key/value object) and
  \<^verbatim>\<open>_isDisposed\<close>.
\<close>

record session_data_cache =
  monitoredKeys :: "string list"
  storage :: storage_map
  isDisposed :: bool

text \<open>
  The constructor, for the arguments \<^verbatim>\<open>monitoredKeys\<close> and \<^verbatim>\<open>initialStorage\<close>:
  \<^verbatim>\<open>_storage\<close> is the initial storage when one is given, else the empty object.
\<close>

definition new_SessionDataCache :: "string list \<Rightarrow> storage_map option \<Rightarrow> session_data_cache" where
  "new_SessionDataCache keys initialStorage =
    \<lparr>monitoredKeys = keys,
     storage = (case initialStorage of Some st \<Rightarrow> st | None \<Rightarrow> []),
     isDisposed = False\<rparr>"

text \<open>\<^verbatim>\<open>dispose()\<close>: idempotent; drops the storage and sets the flag.\<close>

definition dispose :: "session_data_cache \<Rightarrow> session_data_cache" where
  "dispose c = (if isDisposed c then c else c\<lparr>storage := [], isDisposed := True\<rparr>)"


text \<open>\<^verbatim>\<open>CacheChange\<close>: the payload of the cache's data-changed event; both fields are optional.\<close>

record cache_change =
  ch_entryId :: int
  ch_key :: "string option"
  ch_value :: "session_value option"

text \<open>
  \<^verbatim>\<open>_notifyDataChange(entryId, key, value)\<close>: the payloads fired (none on a disposed cache).
  The key and the value are copied into the payload under \<^verbatim>\<open>if (key)\<close> and \<^verbatim>\<open>if (value)\<close>.
\<close>

definition notifyDataChange ::
  "session_data_cache \<Rightarrow> int \<Rightarrow> string option \<Rightarrow> session_value option \<Rightarrow> cache_change list" where
  "notifyDataChange c eid k v =
    (if isDisposed c then []
     else [\<lparr>ch_entryId = eid,
            ch_key = (case k of Some s \<Rightarrow> if s \<noteq> [] then Some s else None | None \<Rightarrow> None),
            ch_value = (if truthy_opt v then v else None)\<rparr>])"

text \<open>
  What the cache asks of its configuration: \<^verbatim>\<open>getEntryIds\<close> and \<^verbatim>\<open>getStorageValue\<close>, each
  possibly \<^verbatim>\<open>null\<close> (\<open>None\<close>), each call either rejecting or resolving.
\<close>

record cache_source =
  getEntryIds :: "(js_error + int list) option"
  getStorageValue :: "(int \<Rightarrow> string \<Rightarrow> js_error + session_value option) option"

text \<open>
  The hydration started by \<^verbatim>\<open>_createDataForEntry\<close>, run to its end: one fetch per monitored
  key; a truthy value is written into the entry's object and notified. The first component is
  the error of a fetch that rejected, if one did (it rejects the entry's promise, the other keys
  still load).
\<close>

fun hydrate ::
  "(int \<Rightarrow> string \<Rightarrow> js_error + session_value option) \<Rightarrow> bool \<Rightarrow> int \<Rightarrow> string list \<Rightarrow>
     storage_entry \<Rightarrow> js_error option \<times> storage_entry \<times> cache_change list" where
  "hydrate fetch disposed eid [] data = (None, data, [])"
| "hydrate fetch disposed eid (k # ks) data =
    (case fetch eid k of
       Inl err \<Rightarrow> (case hydrate fetch disposed eid ks data of (failed, d, evs) \<Rightarrow> (Some err, d, evs))
     | Inr None \<Rightarrow> hydrate fetch disposed eid ks data
     | Inr (Some v) \<Rightarrow>
         if truthy v then
           (case hydrate fetch disposed eid ks (AList.update k v data) of
              (failed, d, evs) \<Rightarrow>
                (failed, d,
                 (if disposed then []
                  else [\<lparr>ch_entryId = eid, ch_key = (if k \<noteq> [] then Some k else None),
                         ch_value = Some v\<rparr>]) @ evs))
         else hydrate fetch disposed eid ks data)"

text \<open>
  \<^verbatim>\<open>_createDataForEntry({ entryId, data })\<close> with \<^verbatim>\<open>addToStorage\<close> at its default: the
  object (the given one, or a new empty one) is stored under the id, then hydrated.
\<close>

definition createDataForEntry ::
  "cache_source \<Rightarrow> int \<Rightarrow> storage_entry option \<Rightarrow> session_data_cache \<Rightarrow>
     js_error option \<times> session_data_cache \<times> cache_change list" where
  "createDataForEntry src eid data0 c =
    (let data = (case data0 of Some d \<Rightarrow> d | None \<Rightarrow> []);
         c1 = c\<lparr>storage := AList.update eid data (storage c)\<rparr>
     in case getStorageValue src of
          None \<Rightarrow> (None, c1, [])
        | Some fetch \<Rightarrow>
            (case hydrate fetch (isDisposed c1) eid (monitoredKeys c1) data of
               (failed, d, evs) \<Rightarrow> (failed, c1\<lparr>storage := AList.update eid d (storage c1)\<rparr>, evs)))"

text \<open>The entries of \<^verbatim>\<open>_start\<close>, one after the other, each keeping what the storage already holds.\<close>

fun create_all ::
  "cache_source \<Rightarrow> int list \<Rightarrow> session_data_cache \<Rightarrow>
     js_error option \<times> session_data_cache \<times> cache_change list" where
  "create_all src [] c = (None, c, [])"
| "create_all src (eid # eids) c =
    (case createDataForEntry src eid (map_of (storage c) eid) c of
       (failed1, c1, evs1) \<Rightarrow>
         (case create_all src eids c1 of
            (failed2, c2, evs2) \<Rightarrow>
              ((case failed1 of Some err \<Rightarrow> Some err | None \<Rightarrow> failed2), c2, evs1 @ evs2)))"

text \<open>
  \<^verbatim>\<open>_start()\<close>, run to its end: what the promise \<^verbatim>\<open>this.start\<close> settles to, the cache then,
  and the events fired. A rejection inside the \<^verbatim>\<open>try\<close> block (of \<^verbatim>\<open>getEntryIds\<close> or of a
  hydration) is caught and logged, and the promise resolves to \<^verbatim>\<open>false\<close>.
\<close>

definition start_try ::
  "cache_source \<Rightarrow> session_data_cache \<Rightarrow> (js_error + bool) \<times> session_data_cache \<times> cache_change list" where
  "start_try src c =
    (case getEntryIds src of
       None \<Rightarrow> (Inr True, c, [])
     | Some (Inl err) \<Rightarrow> (Inl err, c, [])
     | Some (Inr entryIds) \<Rightarrow>
         (case create_all src entryIds c of
            (failed, c1, evs) \<Rightarrow>
              ((case failed of Some err \<Rightarrow> Inl err | None \<Rightarrow> Inr True), c1, evs)))"

definition start ::
  "cache_source \<Rightarrow> session_data_cache \<Rightarrow> (js_error + bool) \<times> session_data_cache \<times> cache_change list" where
  "start src c =
    (case start_try src c of
       (Inl err, c1, evs) \<Rightarrow> (Inr False, c1, evs)
     | (Inr ok, c1, evs) \<Rightarrow> (Inr ok, c1, evs))"

text \<open>
  \<^verbatim>\<open>_suppressEvent()\<close>: \<^verbatim>\<open>await this.start\<close> (rethrowing its rejection, if it had one), then the
  disposed flag. The first argument is what \<^verbatim>\<open>this.start\<close> settled to, the cache is the one
  the handler finds when it resumes.
\<close>

definition suppressEvent :: "(js_error + bool) \<Rightarrow> session_data_cache \<Rightarrow> js_error + bool" where
  "suppressEvent started c =
    (case started of Inl err \<Rightarrow> Inl err | Inr ok \<Rightarrow> Inr (isDisposed c))"


text \<open>\<^verbatim>\<open>_onEntryRemoved(entryId)\<close>.\<close>

definition onEntryRemoved ::
  "int \<Rightarrow> (js_error + bool) \<Rightarrow> session_data_cache \<Rightarrow>
     js_error + (session_data_cache \<times> cache_change list)" where
  "onEntryRemoved eid started c =
    (case suppressEvent started c of
       Inl err \<Rightarrow> Inl err
     | Inr True \<Rightarrow> Inr (c, [])
     | Inr False \<Rightarrow>
         (case map_of (storage c) eid of
            None \<Rightarrow> Inr (c, [])
          | Some data \<Rightarrow>
              let c' = c\<lparr>storage := AList.delete eid (storage c)\<rparr>
              in Inr (c', notifyDataChange c' eid None None)))"


section \<open>marker-tab-data.js: the module state and the persistence policy\<close>

text \<open>
  Modelled from the spec: the class \<^verbatim>\<open>Timeout\<close> of \<^verbatim>\<open>common/delays.js\<close> is not among the
  sources. The module uses its constructor \<^verbatim>\<open>new Timeout(callback, ms)\<close>, \<^verbatim>\<open>dispose()\<close>,
  \<^verbatim>\<open>isActive\<close> and \<^verbatim>\<open>callback\<close>; the spec calls it the eviction timer that frees the
  secondary cache after the idle period. The only callback the module ever passes is
  \<^verbatim>\<open>removeSessionCache\<close>.
\<close>

datatype timeout_callback = RemoveSessionCache

record timeout =
  callback :: timeout_callback
  timeInMilliseconds :: int
  isActive :: bool

definition new_Timeout :: "timeout_callback \<Rightarrow> int \<Rightarrow> timeout" where
  "new_Timeout cb ms = \<lparr>callback = cb, timeInMilliseconds = ms, isActive = True\<rparr>"

definition dispose_timeout :: "timeout \<Rightarrow> timeout" where
  "dispose_timeout t = t\<lparr>isActive := False\<rparr>"

text \<open>The module-level variables of \<^verbatim>\<open>marker-tab-data.js\<close>.\<close>

record marker_state =
  timeToKeepCacheInMilliseconds :: int
  useSessionStorage :: bool
  sessionDataCache :: "session_data_cache option"
  sessionTimeout :: "timeout option"
  temporaryCache :: "session_data_cache option"

text \<open>The state right after the module is loaded.\<close>

definition initial_marker_state :: marker_state where
  "initial_marker_state =
    \<lparr>timeToKeepCacheInMilliseconds = 20000, useSessionStorage = False,
     sessionDataCache = None, sessionTimeout = None, temporaryCache = None\<rparr>"

definition setTimeToKeepCacheInMilliseconds :: "int \<Rightarrow> marker_state \<Rightarrow> marker_state" where
  "setTimeToKeepCacheInMilliseconds v0 s =
    (let v = (if v0 < 0 then - 1 else v0) in
     if v = timeToKeepCacheInMilliseconds s then s
     else
       let s1 = s\<lparr>timeToKeepCacheInMilliseconds := v\<rparr> in
       case sessionTimeout s1 of
         Some t \<Rightarrow>
           if isActive t then s1\<lparr>sessionTimeout := Some (new_Timeout (callback t) v)\<rparr> else s1
       | None \<Rightarrow> s1)"

text \<open>
  \<^verbatim>\<open>getCache()\<close>, its synchronous part: the cache in use is returned, and constructed first
  when the variable is still \<^verbatim>\<open>null\<close>. A temporary cache starts from a deep copy of the
  session cache's storage. (The constructor also starts the asynchronous \<^verbatim>\<open>_start()\<close>, and the
  session branch schedules \<^verbatim>\<open>migrateTempData\<close> behind it; both run later and are not part of
  this step.)
\<close>

definition getCache :: "marker_state \<Rightarrow> session_data_cache \<times> marker_state" where
  "getCache s =
    (if useSessionStorage s then
       (case sessionDataCache s of
          Some c \<Rightarrow> (c, s)
        | None \<Rightarrow>
            let c = new_SessionDataCache [kTAB_DATA_KEY_MARKED] None
            in (c, s\<lparr>sessionDataCache := Some c\<rparr>))
     else
       (case temporaryCache s of
          Some c \<Rightarrow> (c, s)
        | None \<Rightarrow>
            let initialStorage = map_option storage (sessionDataCache s);
                c = new_SessionDataCache [kTAB_DATA_KEY_MARKED] initialStorage
            in (c, s\<lparr>temporaryCache := Some c\<rparr>)))"

text \<open>
  \<^verbatim>\<open>removeSessionCache()\<close> up to its first \<^verbatim>\<open>await\<close>: under the guard, the temporary cache
  is initialised from the session cache, the session cache is disposed and the variable set to
  \<^verbatim>\<open>null\<close>; then \<^verbatim>\<open>browser.sessions.removeTabValue\<close> is called for every saved key of
  every saved tab (the change events follow as each call resolves).
\<close>

definition removeSessionCache :: "marker_state \<Rightarrow> marker_state \<times> effect list" where
  "removeSessionCache s =
    (case sessionDataCache s of
       None \<Rightarrow> (s, [])
     | Some sc \<Rightarrow>
         if useSessionStorage s then (s, [])
         else
           let s1 = snd (getCache s);
               savedData = storage sc;
               s2 = s1\<lparr>sessionDataCache := None\<rparr>
           in (s2, concat (map (\<lambda>(tabId, data). map (\<lambda>k. RemoveTabValue tabId k) (Object_keys data))
                               savedData)))"

text \<open>
  What \<^verbatim>\<open>setUseSessionStorage\<close> starts besides changing the variables: a call of
  \<^verbatim>\<open>migrateTempData()\<close> is recorded as such, its body is not followed.
\<close>

datatype policy_effect = MigrateTempData | Browser effect

definition setUseSessionStorage :: "bool \<Rightarrow> marker_state \<Rightarrow> marker_state \<times> policy_effect list" where
  "setUseSessionStorage v s =
    (if v = useSessionStorage s then (s, [])
     else
       let s1 = s\<lparr>useSessionStorage := v\<rparr>;
           s2 = s1\<lparr>sessionTimeout := map_option dispose_timeout (sessionTimeout s1)\<rparr>
       in if useSessionStorage s2 then
            (case sessionDataCache s2 of
               Some sc \<Rightarrow> (s2, [MigrateTempData])
             | None \<Rightarrow> (snd (getCache s2), []))
          else
            (case sessionDataCache s2 of
               Some sc \<Rightarrow>
                 if timeToKeepCacheInMilliseconds s2 < 0 then
                   (case removeSessionCache s2 of (s3, effs) \<Rightarrow> (s3, map Browser effs))
                 else
                   (s2\<lparr>sessionTimeout :=
                          Some (new_Timeout RemoveSessionCache (timeToKeepCacheInMilliseconds s2))\<rparr>, [])
             | None \<Rightarrow> (s2, [])))"

text \<open>
  \<^verbatim>\<open>getMarkedTabIds()\<close>. The argument is the outcome of the first two statements of its
  \<^verbatim>\<open>try\<close> block, \<^verbatim>\<open>getCache()\<close> and \<^verbatim>\<open>await data.start\<close>: the exception one of them threw,
  or the cache as it is once its start has settled. The result is what the promise resolves to,
  \<open>None\<close> for \<^verbatim>\<open>null\<close>.
\<close>

definition getMarkedTabIds :: "js_error + session_data_cache \<Rightarrow> effect list \<times> string list option" where
  "getMarkedTabIds acquired =
    (case acquired of
       Inl err \<Rightarrow> ([ConsoleError], None)
     | Inr data \<Rightarrow>
         ([], Some (map (\<lambda>(tabId, tabData). js_String tabId)
                     (filter (\<lambda>(tabId, tabData). truthy_opt (map_of tabData kTAB_DATA_KEY_MARKED))
                        (Object_entries (storage data))))))"


section \<open>custom-state-cache.js: the class TSTCustomStateCache\<close>

text \<open>
  The module \<^verbatim>\<open>tree-style-tab/custom-state-cache.js\<close> is the first file of
  \<^verbatim>\<open>src/unnamed/part_001\<close>.
\<close>

text \<open>
  Modelled from the spec: \<^verbatim>\<open>notifyTabStateToTST(tabIds, states, value)\<close> of
  \<^verbatim>\<open>tree-style-tab/custom-state.js\<close> is not among the sources. The spec gives the mirror's
  interface as \<^verbatim>\<open>notifyState(entryIds, stateNames, present)\<close>, which returns whether the mirror
  acknowledged, over a channel that can fail. A call is recorded with its three arguments (a
  single id or name as a singleton list); the mirror's answer is one of: acknowledged
  (resolves to \<^verbatim>\<open>true\<close>), refused (resolves to \<^verbatim>\<open>false\<close>), unreachable (rejects).
\<close>

record mirror_call =
  mc_tabIds :: "int list"
  mc_states :: "string list"
  mc_present :: bool

datatype mirror_reply = Acknowledged | Refused | Unreachable js_error

text \<open>
  One entry of \<^verbatim>\<open>_statesCaches\<close>: \<^verbatim>\<open>cache\<close> maps a tab id to whether the class is believed
  present, \<^verbatim>\<open>ops\<close> maps a tab id to the promise of the last operation queued for it (a
  promise is named by the number of the operation that made it).
\<close>

record state_cache =
  sc_cache :: "int \<Rightarrow> bool option"
  sc_ops :: "int \<Rightarrow> nat option"

definition new_state_cache :: state_cache where
  "new_state_cache = \<lparr>sc_cache = (\<lambda>t. None), sc_ops = (\<lambda>t. None)\<rparr>"

text \<open>
  The fields of the class: \<^verbatim>\<open>_classNames\<close> (\<open>None\<close> when every class name is cached),
  \<^verbatim>\<open>_statesCaches\<close> (keys in insertion order) and the disposed flag of its disposables.
\<close>

record tst_cache =
  classNames :: "string list option"
  statesCaches :: "(string \<times> state_cache) list"
  tst_isDisposed :: bool

definition new_TSTCustomStateCache :: "string list option \<Rightarrow> tst_cache" where
  "new_TSTCustomStateCache names = \<lparr>classNames = names, statesCaches = [], tst_isDisposed = False\<rparr>"

definition tst_dispose :: "tst_cache \<Rightarrow> tst_cache" where
  "tst_dispose c = (if tst_isDisposed c then c else c\<lparr>statesCaches := [], tst_isDisposed := True\<rparr>)"

text \<open>
  \<^verbatim>\<open>_getCache(state)\<close>: \<^verbatim>\<open>null\<close> on a disposed cache, for an empty name and for a name outside
  the allowed class names; otherwise the state's entry, created empty on first use.
\<close>

definition tst_getCache :: "string \<Rightarrow> tst_cache \<Rightarrow> state_cache option \<times> tst_cache" where
  "tst_getCache state c =
    (if tst_isDisposed c \<or> state = [] \<or>
        (case classNames c of Some names \<Rightarrow> state \<notin> set names | None \<Rightarrow> False)
     then (None, c)
     else case map_of (statesCaches c) state of
            Some sc \<Rightarrow> (Some sc, c)
          | None \<Rightarrow> (Some new_state_cache,
                     c\<lparr>statesCaches := statesCaches c @ [(state, new_state_cache)]\<rparr>))"

text \<open>
  Writes through the object \<^verbatim>\<open>_getCache\<close> returned: \<^verbatim>\<open>cache.cache[tabId] = v\<close>, and
  \<^verbatim>\<open>delete cache.cache[tabId]\<close> for \<open>None\<close>.
\<close>

definition put_cache :: "string \<Rightarrow> int \<Rightarrow> bool option \<Rightarrow> tst_cache \<Rightarrow> tst_cache" where
  "put_cache state tabId v c =
    c\<lparr>statesCaches :=
        AList.map_entry state (\<lambda>sc. sc\<lparr>sc_cache := (sc_cache sc)(tabId := v)\<rparr>) (statesCaches c)\<rparr>"

text \<open>\<^verbatim>\<open>cache.ops[tabId] = promise\<close>, and \<^verbatim>\<open>delete cache.ops[tabId]\<close> for \<open>None\<close>.\<close>

definition put_ops :: "string \<Rightarrow> int \<Rightarrow> nat option \<Rightarrow> tst_cache \<Rightarrow> tst_cache" where
  "put_ops state tabId p c =
    c\<lparr>statesCaches :=
        AList.map_entry state (\<lambda>sc. sc\<lparr>sc_ops := (sc_ops sc)(tabId := p)\<rparr>) (statesCaches c)\<rparr>"

text \<open>\<^verbatim>\<open>get(tabId, state)\<close>: the cached belief, \<^verbatim>\<open>false\<close> for a state that is not allowed.\<close>

definition tst_get :: "int \<Rightarrow> string \<Rightarrow> tst_cache \<Rightarrow> bool \<times> tst_cache" where
  "tst_get tabId state c =
    (case tst_getCache state c of
       (None, c1) \<Rightarrow> (False, c1)
     | (Some sc, c1) \<Rightarrow> (sc_cache sc tabId = Some True, c1))"




subsection \<open>The callback of \<^verbatim>\<open>set\<close>\<close>

text \<open>
  The callback that \<^verbatim>\<open>set(tabId, state, value)\<close> queues, up to its \<^verbatim>\<open>await\<close>: it returns
  \<^verbatim>\<open>true\<close> at once when the belief already is the wanted value, and otherwise calls the mirror.
\<close>

datatype callback_begun = Returned bool | Calling mirror_call

definition set_callback_begin ::
  "int \<Rightarrow> string \<Rightarrow> bool \<Rightarrow> tst_cache \<Rightarrow> callback_begun \<times> tst_cache" where
  "set_callback_begin tabId state v c =
    (case tst_get tabId state c of
       (currentState, c1) \<Rightarrow>
         if v = currentState then (Returned True, c1)
         else (Calling \<lparr>mc_tabIds = [tabId], mc_states = [state], mc_present = v\<rparr>, c1))"

text \<open>
  The rest of the callback's \<^verbatim>\<open>try\<close> block, once the mirror has answered: the belief is
  written only for a truthy answer, and the answer is returned; a rejection leaves the block.
\<close>

definition set_callback_try ::
  "mirror_reply \<Rightarrow> int \<Rightarrow> string \<Rightarrow> bool \<Rightarrow> tst_cache \<Rightarrow> (js_error + bool) \<times> tst_cache" where
  "set_callback_try reply tabId state v c =
    (case reply of
       Unreachable err \<Rightarrow> (Inl err, c)
     | Refused \<Rightarrow> (Inr False, c)
     | Acknowledged \<Rightarrow>
         (case tst_getCache state c of
            (Some sc, c1) \<Rightarrow> (Inr True, put_cache state tabId (Some v) c1)
          | (None, c1) \<Rightarrow> (Inr True, c1)))"

text \<open>The callback's \<^verbatim>\<open>catch\<close>: the error is logged and \<^verbatim>\<open>false\<close> is returned.\<close>

definition set_callback_end ::
  "mirror_reply \<Rightarrow> int \<Rightarrow> string \<Rightarrow> bool \<Rightarrow> tst_cache \<Rightarrow> (js_error + bool) \<times> tst_cache" where
  "set_callback_end reply tabId state v c =
    (case set_callback_try reply tabId state v c of
       (Inl err, c1) \<Rightarrow> (Inr False, c1)
     | (Inr res, c1) \<Rightarrow> (Inr res, c1))"


subsection \<open>Operations run to their end on a quiet cache\<close>

text \<open>
  The functions of this subsection describe a call that is awaited while nothing else is
  pending for the scope: \<^verbatim>\<open>cache.ops[tabId]\<close> is undefined when the operation is queued, so
  \<^verbatim>\<open>await lastOp\<close> yields \<^verbatim>\<open>undefined\<close>, the callback runs, and the entry the operation put
  into \<^verbatim>\<open>ops\<close> is deleted again when it has settled. The interleaved execution of queued
  operations is the subject of a later section, and the last section shows that \<open>tst_set\<close>
  is what that execution does for a call awaited alone.

  \<^verbatim>\<open>set(tabId, state, value)\<close>: the first argument is the answer of the mirror, should it be
  called. The result is what the promise settles to (\<open>Inl\<close> a rejection), the cache afterwards,
  and the mirror calls made.
\<close>

definition tst_set ::
  "mirror_reply \<Rightarrow> int \<Rightarrow> string \<Rightarrow> bool \<Rightarrow> tst_cache \<Rightarrow>
     (js_error + bool) \<times> tst_cache \<times> mirror_call list" where
  "tst_set reply tabId state v c =
    (case tst_getCache state c of
       (None, c1) \<Rightarrow> (Inr False, c1, [])
     | (Some sc, c1) \<Rightarrow>
         (case set_callback_begin tabId state v c1 of
            (Returned res, c2) \<Rightarrow> (Inr res, c2, [])
          | (Calling call, c2) \<Rightarrow>
              (case set_callback_end reply tabId state v c2 of
                 (res, c3) \<Rightarrow> (res, c3, [call]))))"











subsection \<open>A tab attached to another window\<close>






subsection \<open>Notions used to state the claims about the mirror cache\<close>




text \<open>
  Three readings of a cache without side effect, used in the proofs: whether \<^verbatim>\<open>_getCache\<close>
  yields an entry for the name, the belief stored for a tab, and the cache after
  \<^verbatim>\<open>_getCache(state)\<close> has (possibly) created the entry.
\<close>

definition allowed :: "tst_cache \<Rightarrow> string \<Rightarrow> bool" where
  "allowed c state \<longleftrightarrow>
     \<not> tst_isDisposed c \<and> state \<noteq> [] \<and>
     (case classNames c of Some names \<Rightarrow> state \<in> set names | None \<Rightarrow> True)"

definition believed :: "tst_cache \<Rightarrow> int \<Rightarrow> string \<Rightarrow> bool" where
  "believed c tabId state \<longleftrightarrow>
     (case map_of (statesCaches c) state of
        Some sc \<Rightarrow> sc_cache sc tabId = Some True
      | None \<Rightarrow> False)"



definition ensure :: "string \<Rightarrow> tst_cache \<Rightarrow> tst_cache" where
  "ensure state c = snd (tst_getCache state c)"





section \<open>custom-state-cache.js: the queue of operations, step by step\<close>

text \<open>
  \<^verbatim>\<open>_queueOp\<close> chains asynchronous functions through promises. Here every stretch of code
  between two \<^verbatim>\<open>await\<close>s is one atomic step of a machine, as it is on JavaScript's single
  thread, and the steps of different operations interleave freely.

  The two callers of \<^verbatim>\<open>_queueOp\<close>: \<^verbatim>\<open>set(tabId, state, value)\<close> and \<^verbatim>\<open>_onTabRemoved\<close>.
\<close>

datatype queued = SetOp bool | TabRemovedOp

text \<open>
  Where one call of \<^verbatim>\<open>_queueOp\<close> stands: its inner function is suspended at
  \<^verbatim>\<open>await lastOp\<close>; or the callback has been called and awaits the mirror; or the callback
  has returned (or thrown) and \<^verbatim>\<open>value = await callback()\<close> has not resumed yet; or the inner
  function has returned, which resolves the operation's promise, with a truthy or a falsy value.
\<close>

datatype op_phase =
    AwaitingLastOp
  | InCallback
  | CallbackReturned "js_error + bool"
  | Settled bool

text \<open>
  One call of \<^verbatim>\<open>_queueOp\<close>: its arguments, the promise \<^verbatim>\<open>lastOp\<close> it read from
  \<^verbatim>\<open>cache.ops[tabId]\<close> (promises are named by the index of the operation that made them),
  its phase, its local variables \<^verbatim>\<open>value\<close> and \<^verbatim>\<open>outerError\<close>, and whether the outer
  function has finished.
\<close>

record queued_op =
  op_tabId :: int
  op_state :: string
  op_kind :: queued
  op_setOpReturnValue :: bool
  op_lastOp :: "nat option"
  op_phase :: op_phase
  op_value :: "bool option"
  op_outerError :: "js_error option"
  op_finished :: bool

text \<open>The cache, every operation queued so far in the order of submission, and the mirror calls made.\<close>

record machine =
  m_cache :: tst_cache
  m_ops :: "queued_op list"
  m_calls :: "mirror_call list"

definition initial_machine :: "string list option \<Rightarrow> machine" where
  "initial_machine names = \<lparr>m_cache = new_TSTCustomStateCache names, m_ops = [], m_calls = []\<rparr>"

text \<open>
  \<^verbatim>\<open>_queueOp\<close> up to \<^verbatim>\<open>await promise\<close>: without a cache for the state it returns the default
  at once and nothing is queued; otherwise it reads \<^verbatim>\<open>lastOp\<close>, starts the inner function
  (which suspends at \<^verbatim>\<open>await lastOp\<close> in every case, so \<^verbatim>\<open>alreadyDone\<close> is still false)
  and stores the new promise in \<^verbatim>\<open>cache.ops[tabId]\<close>.
\<close>

definition queueOp_begin ::
  "int \<Rightarrow> string \<Rightarrow> queued \<Rightarrow> bool \<Rightarrow> bool option \<Rightarrow> machine \<Rightarrow> machine" where
  "queueOp_begin tabId state kind setOpReturnValue defaultValue m =
    (case tst_getCache state (m_cache m) of
       (None, c1) \<Rightarrow> m\<lparr>m_cache := c1\<rparr>
     | (Some sc, c1) \<Rightarrow>
         m\<lparr>m_cache := put_ops state tabId (Some (length (m_ops m))) c1,
           m_ops := m_ops m @
             [\<lparr>op_tabId = tabId, op_state = state, op_kind = kind,
               op_setOpReturnValue = setOpReturnValue, op_lastOp = sc_ops sc tabId,
               op_phase = AwaitingLastOp, op_value = defaultValue, op_outerError = None,
               op_finished = False\<rparr>]\<rparr>)"

text \<open>
  What \<^verbatim>\<open>await lastOp\<close> yields, as truthy or falsy, once it can resume: \<^verbatim>\<open>undefined\<close> when
  there was no last operation, else the value the last operation's promise resolved to; \<open>None\<close>
  while that promise is pending.
\<close>

definition lastResult :: "machine \<Rightarrow> queued_op \<Rightarrow> bool option" where
  "lastResult m op =
    (case op_lastOp op of
       None \<Rightarrow> Some False
     | Some p \<Rightarrow>
         if p < length (m_ops m) then
           (case op_phase (m_ops m ! p) of Settled r \<Rightarrow> Some r | other \<Rightarrow> None)
         else None)"

text \<open>
  Calling the callback: the one of \<^verbatim>\<open>set\<close> returns at once or calls the mirror; the one of
  \<^verbatim>\<open>_onTabRemoved\<close> deletes the tab's belief and returns \<^verbatim>\<open>true\<close>.
\<close>

definition callback_begin :: "queued_op \<Rightarrow> machine \<Rightarrow> op_phase \<times> machine" where
  "callback_begin op m =
    (case op_kind op of
       SetOp v \<Rightarrow>
         (case set_callback_begin (op_tabId op) (op_state op) v (m_cache m) of
            (Returned r, c1) \<Rightarrow> (CallbackReturned (Inr r), m\<lparr>m_cache := c1\<rparr>)
          | (Calling call, c1) \<Rightarrow> (InCallback, m\<lparr>m_cache := c1, m_calls := m_calls m @ [call]\<rparr>))
     | TabRemovedOp \<Rightarrow>
         (case tst_getCache (op_state op) (m_cache m) of
            (Some sc, c1) \<Rightarrow>
              (CallbackReturned (Inr True),
               m\<lparr>m_cache := put_cache (op_state op) (op_tabId op) None c1\<rparr>)
          | (None, c1) \<Rightarrow> (CallbackReturned (Inr True), m\<lparr>m_cache := c1\<rparr>)))"

definition set_phase :: "nat \<Rightarrow> op_phase \<Rightarrow> machine \<Rightarrow> machine" where
  "set_phase i ph m = m\<lparr>m_ops := (m_ops m)[i := (m_ops m ! i)\<lparr>op_phase := ph\<rparr>]\<rparr>"

text \<open>
  The steps: a call of \<^verbatim>\<open>set\<close>; a tab-removed event; an operation resuming after
  \<^verbatim>\<open>await lastOp\<close>; the mirror answering the call of an operation; an operation resuming after
  \<^verbatim>\<open>await callback()\<close>; the outer function resuming after \<^verbatim>\<open>await promise\<close>;
  \<^verbatim>\<open>dispose()\<close>; and a state-changed event with \<^verbatim>\<open>apply: false\<close>, which writes the belief
  directly.
\<close>

datatype action =
    CallSet int string bool
  | TabRemoved int
  | ResumeOp nat
  | MirrorReplies nat mirror_reply
  | ContinueOp nat
  | FinishOp nat
  | DisposeCache
  | StateChanged int string bool

text \<open>
  One step; \<open>None\<close> when the step cannot happen in this state. An operation resumes after
  \<^verbatim>\<open>await lastOp\<close> only when that promise has resolved; it then returns the truthy
  \<^verbatim>\<open>lastResult\<close> without calling the callback, or returns on a disposed cache, or calls the
  callback. When the callback is done the inner function returns \<^verbatim>\<open>value\<close> if
  \<^verbatim>\<open>setOpReturnValue\<close> is set and \<^verbatim>\<open>undefined\<close> otherwise. The outer function finally deletes
  \<^verbatim>\<open>cache.ops[tabId]\<close> if it still is its own promise (on the entry it got from
  \<^verbatim>\<open>_getCache\<close>, which a disposed cache no longer holds).
\<close>

fun exec :: "action \<Rightarrow> machine \<Rightarrow> machine option" where
  "exec (CallSet tabId state v) m = Some (queueOp_begin tabId state (SetOp v) False (Some False) m)"
| "exec (TabRemoved tabId) m =
    Some (foldl (\<lambda>m' state. queueOp_begin tabId state TabRemovedOp True None m') m
            (Object_keys (statesCaches (m_cache m))))"
| "exec (ResumeOp i) m =
    (if i < length (m_ops m) \<and> op_phase (m_ops m ! i) = AwaitingLastOp then
       (case lastResult m (m_ops m ! i) of
          None \<Rightarrow> None
        | Some True \<Rightarrow> Some (set_phase i (Settled True) m)
        | Some False \<Rightarrow>
            if tst_isDisposed (m_cache m) then Some (set_phase i (Settled False) m)
            else (case callback_begin (m_ops m ! i) m of (ph, m1) \<Rightarrow> Some (set_phase i ph m1)))
     else None)"
| "exec (MirrorReplies i reply) m =
    (if i < length (m_ops m) \<and> op_phase (m_ops m ! i) = InCallback then
       (case op_kind (m_ops m ! i) of
          SetOp v \<Rightarrow>
            (case set_callback_end reply (op_tabId (m_ops m ! i)) (op_state (m_ops m ! i)) v
                    (m_cache m) of
               (res, c1) \<Rightarrow> Some (set_phase i (CallbackReturned res) (m\<lparr>m_cache := c1\<rparr>)))
        | TabRemovedOp \<Rightarrow> None)
     else None)"
| "exec (ContinueOp i) m =
    (if i < length (m_ops m) then
       (case op_phase (m_ops m ! i) of
          CallbackReturned res \<Rightarrow>
            let op = m_ops m ! i;
                op1 = (case res of
                         Inr r \<Rightarrow> op\<lparr>op_value := Some r\<rparr>
                       | Inl err \<Rightarrow> op\<lparr>op_outerError := Some err\<rparr>);
                resolved = (if op_setOpReturnValue op1 then op_value op1 = Some True else False)
            in Some (m\<lparr>m_ops := (m_ops m)[i := op1\<lparr>op_phase := Settled resolved\<rparr>]\<rparr>)
        | other \<Rightarrow> None)
     else None)"
| "exec (FinishOp i) m =
    (if i < length (m_ops m) \<and> \<not> op_finished (m_ops m ! i) then
       (case op_phase (m_ops m ! i) of
          Settled r \<Rightarrow>
            let op = m_ops m ! i;
                c = m_cache m;
                c1 = (if tst_isDisposed c then c
                      else case map_of (statesCaches c) (op_state op) of
                             Some sc \<Rightarrow>
                               if sc_ops sc (op_tabId op) = Some i
                               then put_ops (op_state op) (op_tabId op) None c else c
                           | None \<Rightarrow> c)
            in Some (m\<lparr>m_cache := c1, m_ops := (m_ops m)[i := op\<lparr>op_finished := True\<rparr>]\<rparr>)
        | other \<Rightarrow> None)
     else None)"
| "exec DisposeCache m = Some (m\<lparr>m_cache := tst_dispose (m_cache m)\<rparr>)"
| "exec (StateChanged tabId className v) m =
    (case tst_getCache className (m_cache m) of
       (Some sc, c1) \<Rightarrow> Some (m\<lparr>m_cache := put_cache className tabId (Some v) c1\<rparr>)
     | (None, c1) \<Rightarrow> Some (m\<lparr>m_cache := c1\<rparr>))"

text \<open>A sequence of steps, and the states the cache can reach from its construction.\<close>

fun run :: "action list \<Rightarrow> machine \<Rightarrow> machine option" where
  "run [] m = Some m"
| "run (a # as) m = (case exec a m of None \<Rightarrow> None | Some m1 \<Rightarrow> run as m1)"

inductive reachable :: "string list option \<Rightarrow> machine \<Rightarrow> bool" for names where
  initial: "reachable names (initial_machine names)"
| step: "reachable names m \<Longrightarrow> exec a m = Some m' \<Longrightarrow> reachable names m'"

text \<open>
  A call of \<^verbatim>\<open>set\<close> that is awaited before anything else happens: its steps one after the
  other, the mirror answering with \<open>reply\<close> if it is called.
\<close>

definition run_set_alone :: "mirror_reply \<Rightarrow> int \<Rightarrow> string \<Rightarrow> bool \<Rightarrow> machine \<Rightarrow> machine option" where
  "run_set_alone reply tabId state v m =
    (let n = length (m_ops m) in
     case exec (CallSet tabId state v) m of
       None \<Rightarrow> None
     | Some m1 \<Rightarrow>
         if length (m_ops m1) = n then Some m1
         else
           (case exec (ResumeOp n) m1 of
              None \<Rightarrow> None
            | Some m2 \<Rightarrow>
                (case (if op_phase (m_ops m2 ! n) = InCallback
                       then exec (MirrorReplies n reply) m2 else Some m2) of
                   None \<Rightarrow> None
                 | Some m3 \<Rightarrow>
                     (case exec (ContinueOp n) m3 of
                        None \<Rightarrow> None
                      | Some m4 \<Rightarrow> exec (FinishOp n) m4))))"

text \<open>
  The notions of the claim: the scope of an operation, a resolved promise, a callback that has
  been called and whose operation has not settled, and the operation \<^verbatim>\<open>cache.ops[tabId]\<close>
  names for a scope.
\<close>

definition scope_of :: "queued_op \<Rightarrow> int \<times> string" where
  "scope_of op = (op_tabId op, op_state op)"

fun is_settled :: "op_phase \<Rightarrow> bool" where
  "is_settled (Settled r) = True"
| "is_settled other = False"

fun executing :: "op_phase \<Rightarrow> bool" where
  "executing InCallback = True"
| "executing (CallbackReturned res) = True"
| "executing other = False"

definition pending_of :: "tst_cache \<Rightarrow> int \<times> string \<Rightarrow> nat option" where
  "pending_of c scope =
    (case map_of (statesCaches c) (snd scope) of
       Some sc \<Rightarrow> sc_ops sc (fst scope)
     | None \<Rightarrow> None)"

text \<open>
  The invariant of the queue. The \<^verbatim>\<open>lastOp\<close> of an operation is the latest earlier operation
  of its scope; an operation without \<^verbatim>\<open>lastOp\<close> was queued when every earlier operation of
  its scope had settled; \<^verbatim>\<open>cache.ops[tabId]\<close> names the latest operation of the scope, and
  when it is empty every operation of the scope has settled.
\<close>

definition inv_lastOp :: "machine \<Rightarrow> bool" where
  "inv_lastOp m \<longleftrightarrow>
    (\<forall>i p. i < length (m_ops m) \<longrightarrow> op_lastOp (m_ops m ! i) = Some p \<longrightarrow>
       p < i \<and> scope_of (m_ops m ! p) = scope_of (m_ops m ! i) \<and>
       (\<forall>k. p < k \<longrightarrow> k < i \<longrightarrow> scope_of (m_ops m ! k) \<noteq> scope_of (m_ops m ! i)))"

definition inv_first :: "machine \<Rightarrow> bool" where
  "inv_first m \<longleftrightarrow>
    (\<forall>i k. i < length (m_ops m) \<longrightarrow> op_lastOp (m_ops m ! i) = None \<longrightarrow> k < i \<longrightarrow>
       scope_of (m_ops m ! k) = scope_of (m_ops m ! i) \<longrightarrow> is_settled (op_phase (m_ops m ! k)))"

text \<open>
  Submission order: an operation has left \<^verbatim>\<open>await lastOp\<close> only if every operation queued
  earlier for the same scope has settled.
\<close>

definition in_order :: "machine \<Rightarrow> bool" where
  "in_order m \<longleftrightarrow>
    (\<forall>i j. i < j \<longrightarrow> j < length (m_ops m) \<longrightarrow>
       scope_of (m_ops m ! i) = scope_of (m_ops m ! j) \<longrightarrow>
       op_phase (m_ops m ! j) \<noteq> AwaitingLastOp \<longrightarrow> is_settled (op_phase (m_ops m ! i)))"

definition inv_pending :: "machine \<Rightarrow> bool" where
  "inv_pending m \<longleftrightarrow>
    (\<not> tst_isDisposed (m_cache m) \<longrightarrow>
      (\<forall>scope p. pending_of (m_cache m) scope = Some p \<longrightarrow>
         p < length (m_ops m) \<and> scope_of (m_ops m ! p) = scope \<and>
         (\<forall>k. p < k \<longrightarrow> k < length (m_ops m) \<longrightarrow> scope_of (m_ops m ! k) \<noteq> scope)))"

definition inv_idle :: "machine \<Rightarrow> bool" where
  "inv_idle m \<longleftrightarrow>
    (\<not> tst_isDisposed (m_cache m) \<longrightarrow>
      (\<forall>i. i < length (m_ops m) \<longrightarrow> pending_of (m_cache m) (scope_of (m_ops m ! i)) = None \<longrightarrow>
         is_settled (op_phase (m_ops m ! i))))"

definition queue_inv :: "machine \<Rightarrow> bool" where
  "queue_inv m \<longleftrightarrow> inv_lastOp m \<and> inv_first m \<and> in_order m \<and> inv_pending m \<and> inv_idle m"

text \<open>At most one callback per scope is executing.\<close>

definition one_at_a_time :: "machine \<Rightarrow> bool" where
  "one_at_a_time m \<longleftrightarrow>
    (\<forall>i j. i < length (m_ops m) \<longrightarrow> j < length (m_ops m) \<longrightarrow> i \<noteq> j \<longrightarrow>
       scope_of (m_ops m ! i) = scope_of (m_ops m ! j) \<longrightarrow>
       \<not> (executing (op_phase (m_ops m ! i)) \<and> executing (op_phase (m_ops m ! j))))"

text \<open>
  Whenever the step that lets an operation leave \<^verbatim>\<open>await lastOp\<close> can happen, its immediate
  predecessor and every earlier operation of its scope have settled.
\<close>

definition starts_after_predecessors :: "machine \<Rightarrow> bool" where
  "starts_after_predecessors m \<longleftrightarrow>
    (\<forall>j m'. exec (ResumeOp j) m = Some m' \<longrightarrow>
       (\<forall>p. op_lastOp (m_ops m ! j) = Some p \<longrightarrow> is_settled (op_phase (m_ops m ! p))) \<and>
       (\<forall>i. i < j \<longrightarrow> scope_of (m_ops m ! i) = scope_of (m_ops m ! j) \<longrightarrow>
            is_settled (op_phase (m_ops m ! i))))"

text \<open>
  Two runs with operations of different scopes: both callbacks executing at once, and an
  operation starting before one of another scope that was submitted earlier.
\<close>

definition overlap_run :: "action list" where
  "overlap_run = [CallSet 1 ''a'' True, CallSet 2 ''a'' True, ResumeOp 0, ResumeOp 1]"

definition overtake_run :: "action list" where
  "overtake_run =
    [CallSet 1 ''a'' True, CallSet 1 ''a'' False, CallSet 2 ''a'' True, ResumeOp 0, ResumeOp 2]"


section \<open>Claim C8: an unknown color\<close>

text \<open>
  C8 as stated: \<^verbatim>\<open>createTabMark(tabId, color)\<close> with a color that is not a key of
  \<^verbatim>\<open>kCOLORS\<close> surfaces a thrown error to the caller. The code does not: the
  \<^verbatim>\<open>throw\<close> stands inside the function's own \<^verbatim>\<open>try\<close> block, so at the unknown color
  \<open>magenta\<close> the promise resolves to \<^verbatim>\<open>false\<close>.
\<close>

theorem createTabMark_unknown_color_counterexample:
  "''magenta'' \<notin> set (Object_keys kCOLORS) \<and>
   \<not> (\<exists>err. snd (createTabMark
          \<lparr>env_useSessionStorage = False, env_getTabMark = (\<lambda>t. None),
           env_setTabValue = (\<lambda>t k v. None)\<rparr> 1 ''magenta'' default_mark_options) = Inl err) \<and>
   snd (createTabMark
          \<lparr>env_useSessionStorage = False, env_getTabMark = (\<lambda>t. None),
           env_setTabValue = (\<lambda>t k v. None)\<rparr> 1 ''magenta'' default_mark_options) = Inr False"
  by (simp add: createTabMark_def createTabMark_try_def Object_keys_def kCOLORS_def)

text \<open>
  C8 as amended: for a color that is not a key of \<^verbatim>\<open>kCOLORS\<close>, \<^verbatim>\<open>createTabMark\<close> catches
  its own error: it logs it, resolves to \<^verbatim>\<open>false\<close>, writes no session value and fires no
  event, whatever the collaborators and options are.
\<close>

theorem createTabMark_unknown_color:
  "color \<notin> set (Object_keys kCOLORS) \<Longrightarrow>
   createTabMark env tabId color opts = ([ConsoleError], Inr False)"
  by (simp add: createTabMark_def createTabMark_try_def)

theorem createTabMark_unknown_color_witness:
  "''magenta'' \<notin> set (Object_keys kCOLORS) \<and>
   createTabMark \<lparr>env_useSessionStorage = True, env_getTabMark = (\<lambda>t. None),
                  env_setTabValue = (\<lambda>t k v. None)\<rparr> 7 ''magenta''
                 \<lparr>forceSetSessionData = True, notifyChange = True\<rparr>
     = ([ConsoleError], Inr False)"
proof -
  have unknown: "''magenta'' \<notin> set (Object_keys kCOLORS)"
    by (simp add: Object_keys_def kCOLORS_def)
  show ?thesis
    using unknown createTabMark_unknown_color [OF unknown] by simp
qed

section \<open>Claim C7: a negative keep time\<close>

text \<open>
  C7 as stated: with a negative keep time the session cache is never freed, toggling the
  persistence policy off does not release it. The code does the opposite: from a state that
  uses the session storage and holds a session cache, setting the keep time to \<open>-5\<close> stores
  \<open>-1\<close>, and switching the policy off then calls \<^verbatim>\<open>removeSessionCache()\<close> at once, so the
  session cache variable is \<^verbatim>\<open>null\<close> when \<^verbatim>\<open>setUseSessionStorage(false)\<close> returns.
\<close>

theorem negative_keep_time_counterexample:
  "timeToKeepCacheInMilliseconds
     (setTimeToKeepCacheInMilliseconds (- 5)
        (initial_marker_state\<lparr>useSessionStorage := True,
           sessionDataCache := Some (new_SessionDataCache [kTAB_DATA_KEY_MARKED]
                                      (Some [(1, [(''marked'', Str ''red'')])]))\<rparr>)) = - 1 \<and>
   sessionDataCache
     (setTimeToKeepCacheInMilliseconds (- 5)
        (initial_marker_state\<lparr>useSessionStorage := True,
           sessionDataCache := Some (new_SessionDataCache [kTAB_DATA_KEY_MARKED]
                                      (Some [(1, [(''marked'', Str ''red'')])]))\<rparr>)) \<noteq> None \<and>
   sessionDataCache
     (fst (setUseSessionStorage False
        (setTimeToKeepCacheInMilliseconds (- 5)
          (initial_marker_state\<lparr>useSessionStorage := True,
             sessionDataCache := Some (new_SessionDataCache [kTAB_DATA_KEY_MARKED]
                                        (Some [(1, [(''marked'', Str ''red'')])]))\<rparr>)))) = None"
  by (simp add: setUseSessionStorage_def setTimeToKeepCacheInMilliseconds_def
      initial_marker_state_def removeSessionCache_def getCache_def new_SessionDataCache_def
      Let_def)

text \<open>
  C7 as amended: if the keep time is negative, toggling the persistence policy off while a
  session cache exists releases the session cache immediately: the variable is \<^verbatim>\<open>null\<close> when
  \<^verbatim>\<open>setUseSessionStorage(false)\<close> returns, its storage has been copied into the temporary cache
  when none existed, and no eviction timer is left active.
\<close>

theorem negative_keep_time_releases_at_once:
  assumes "timeToKeepCacheInMilliseconds s < 0"
    and "useSessionStorage s"
    and "sessionDataCache s = Some sc"
  shows "sessionDataCache (fst (setUseSessionStorage False s)) = None \<and>
         (temporaryCache s = None \<longrightarrow>
            map_option storage (temporaryCache (fst (setUseSessionStorage False s)))
              = Some (storage sc)) \<and>
         (\<forall>t. sessionTimeout (fst (setUseSessionStorage False s)) = Some t \<longrightarrow> \<not> isActive t)"
  using assms
  by (auto simp add: setUseSessionStorage_def removeSessionCache_def getCache_def Let_def
      new_SessionDataCache_def dispose_timeout_def split: option.splits)

theorem negative_keep_time_releases_at_once_witness:
  "sessionDataCache (fst (setUseSessionStorage False
      \<lparr>timeToKeepCacheInMilliseconds = - 1, useSessionStorage = True,
       sessionDataCache = Some \<lparr>monitoredKeys = [''marked''],
                                 storage = [(1, [(''marked'', Str ''red'')])], isDisposed = False\<rparr>,
       sessionTimeout = Some (new_Timeout RemoveSessionCache 20000),
       temporaryCache = None\<rparr>)) = None \<and>
   map_option storage (temporaryCache (fst (setUseSessionStorage False
      \<lparr>timeToKeepCacheInMilliseconds = - 1, useSessionStorage = True,
       sessionDataCache = Some \<lparr>monitoredKeys = [''marked''],
                                 storage = [(1, [(''marked'', Str ''red'')])], isDisposed = False\<rparr>,
       sessionTimeout = Some (new_Timeout RemoveSessionCache 20000),
       temporaryCache = None\<rparr>))) = Some [(1, [(''marked'', Str ''red'')])] \<and>
   sessionTimeout (fst (setUseSessionStorage False
      \<lparr>timeToKeepCacheInMilliseconds = - 1, useSessionStorage = True,
       sessionDataCache = Some \<lparr>monitoredKeys = [''marked''],
                                 storage = [(1, [(''marked'', Str ''red'')])], isDisposed = False\<rparr>,
       sessionTimeout = Some (new_Timeout RemoveSessionCache 20000),
       temporaryCache = None\<rparr>))
     = Some \<lparr>callback = RemoveSessionCache, timeInMilliseconds = 20000, isActive = False\<rparr>"
  using negative_keep_time_releases_at_once
    [of "\<lparr>timeToKeepCacheInMilliseconds = - 1, useSessionStorage = True,
       sessionDataCache = Some \<lparr>monitoredKeys = [''marked''],
                                 storage = [(1, [(''marked'', Str ''red'')])], isDisposed = False\<rparr>,
       sessionTimeout = Some (new_Timeout RemoveSessionCache 20000),
       temporaryCache = None\<rparr>"
       "\<lparr>monitoredKeys = [''marked''],
         storage = [(1, [(''marked'', Str ''red'')])], isDisposed = False\<rparr>"]
  by (simp add: setUseSessionStorage_def removeSessionCache_def getCache_def Let_def
      new_SessionDataCache_def dispose_timeout_def new_Timeout_def)




section \<open>Claim C10: the ids of the marked tabs\<close>

lemma String_nat_small: "n < 10 \<Longrightarrow> String_nat n = [digit_char n]"
  by (subst String_nat.simps) simp

lemma String_nat_large:
  "\<not> n < 10 \<Longrightarrow> String_nat n = String_nat (n div 10) @ [digit_char (n mod 10)]"
  by (subst String_nat.simps) simp

lemma is_digit_digit_char: "d < 10 \<Longrightarrow> is_digit (digit_char d)"
  by (simp add: is_digit_def digit_char_def)

lemma digit_val_digit_char: "d < 10 \<Longrightarrow> digit_val (digit_char d) = d"
  by (simp add: digit_val_def digit_char_def)

lemma String_nat_digits: "c \<in> set (String_nat n) \<Longrightarrow> is_digit c"
proof (induction n rule: String_nat.induct)
  case (1 n)
  show ?case
  proof (cases "n < 10")
    case True
    with 1(2) show ?thesis by (simp add: String_nat_small is_digit_digit_char)
  next
    case False
    with 1 show ?thesis
      by (auto simp add: String_nat_large is_digit_digit_char)
  qed
qed

lemma String_nat_nonempty: "String_nat n \<noteq> []"
  by (cases "n < 10") (simp_all add: String_nat_small String_nat_large)

lemma foldl_String_nat:
  "foldl (\<lambda>acc c. 10 * acc + digit_val c) 0 (String_nat n) = n"
proof (induction n rule: String_nat.induct)
  case (1 n)
  show ?case
  proof (cases "n < 10")
    case True
    then show ?thesis by (simp add: String_nat_small digit_val_digit_char)
  next
    case False
    with 1 show ?thesis
      by (simp add: String_nat_large digit_val_digit_char)
  qed
qed

lemma parse_digits_String_nat: "parse_digits (String_nat n) = Some n"
proof -
  have tw: "takeWhile is_digit (String_nat n) = String_nat n"
    using String_nat_digits by (simp add: takeWhile_eq_all_conv)
  show ?thesis
    unfolding parse_digits_def Let_def tw
    by (simp add: String_nat_nonempty foldl_String_nat)
qed

lemma String_nat_no_minus: "hd (String_nat n) \<noteq> CHR ''-''"
proof -
  have "hd (String_nat n) \<in> set (String_nat n)"
    using String_nat_nonempty by simp
  then have "is_digit (hd (String_nat n))"
    by (rule String_nat_digits)
  then show ?thesis
    by (auto simp add: is_digit_def)
qed

lemma parseInt_js_String: "parseInt (js_String i) = Some i"
proof (cases "i < 0")
  case True
  then show ?thesis
    by (simp add: parseInt_def js_String_def parse_digits_String_nat)
next
  case False
  obtain c r where cr: "String_nat (nat i) = c # r"
    using String_nat_nonempty by (cases "String_nat (nat i)") auto
  have "c \<noteq> CHR ''-''"
    using String_nat_no_minus [of "nat i"] cr by simp
  with False cr show ?thesis
    using parse_digits_String_nat [of "nat i"]
    by (simp add: parseInt_def js_String_def)
qed

text \<open>
  C10: \<^verbatim>\<open>getMarkedTabIds\<close> resolves to \<^verbatim>\<open>null\<close> when obtaining the cache or awaiting its start
  threw. Otherwise it resolves to an array of strings whose members are exactly the ids, each
  written by \<^verbatim>\<open>String\<close>, of the cached entries whose value under the marked key is truthy;
  \<^verbatim>\<open>parseInt\<close> reads every member back as the integer id it came from.
\<close>

theorem getMarkedTabIds_result:
  "getMarkedTabIds (Inl err) = ([ConsoleError], None) \<and>
   (\<exists>ids. snd (getMarkedTabIds (Inr data)) = Some ids \<and>
      set ids = js_String ` {tabId. \<exists>tabData. (tabId, tabData) \<in> set (storage data) \<and>
                                truthy_opt (map_of tabData kTAB_DATA_KEY_MARKED)} \<and>
      map parseInt ids =
        map (\<lambda>(tabId, tabData). Some tabId)
          (filter (\<lambda>(tabId, tabData). truthy_opt (map_of tabData kTAB_DATA_KEY_MARKED))
             (storage data)))"
proof -
  let ?marked = "\<lambda>(tabId :: int, tabData). truthy_opt (map_of tabData kTAB_DATA_KEY_MARKED)"
  let ?ids = "map (\<lambda>(tabId, tabData). js_String tabId) (filter ?marked (storage data))"
  have res: "snd (getMarkedTabIds (Inr data)) = Some ?ids"
    by (simp add: getMarkedTabIds_def Object_entries_def)
  have members: "set ?ids = js_String ` {tabId. \<exists>tabData. (tabId, tabData) \<in> set (storage data) \<and>
                                truthy_opt (map_of tabData kTAB_DATA_KEY_MARKED)}"
    by (auto simp add: image_iff)
  have parsed: "map parseInt ?ids = map (\<lambda>(tabId, tabData). Some tabId) (filter ?marked (storage data))"
    by (simp add: parseInt_js_String case_prod_unfold)
  have on_error: "getMarkedTabIds (Inl err) = ([ConsoleError], None)"
    by (simp add: getMarkedTabIds_def)
  from res members parsed on_error show ?thesis by blast
qed

text \<open>An instance: of four cached tabs, the two with a truthy mark are listed, as strings.\<close>

theorem getMarkedTabIds_result_witness:
  "snd (getMarkedTabIds (Inr \<lparr>monitoredKeys = [''marked''],
     storage = [(1, [(''marked'', Str ''red'')]), (2, []), (3, [(''marked'', Str '''')]),
                (12, [(''marked'', Obj [])])], isDisposed = False\<rparr>)) = Some [''1'', ''12''] \<and>
   snd (getMarkedTabIds (Inl (Error ''no cache''))) = None"
proof -
  have computed:
    "snd (getMarkedTabIds (Inr \<lparr>monitoredKeys = [''marked''],
       storage = [(1, [(''marked'', Str ''red'')]), (2, []), (3, [(''marked'', Str '''')]),
                  (12, [(''marked'', Obj [])])], isDisposed = False\<rparr>)) = Some [''1'', ''12'']"
    by code_simp
  from getMarkedTabIds_result [of "Error ''no cache''" "\<lparr>monitoredKeys = [''marked''],
     storage = [(1, [(''marked'', Str ''red'')]), (2, []), (3, [(''marked'', Str '''')]),
                (12, [(''marked'', Obj [])])], isDisposed = False\<rparr>"]
  have "getMarkedTabIds (Inl (Error ''no cache'')) = ([ConsoleError], None)"
    by (rule conjunct1)
  with computed show ?thesis by simp
qed



section \<open>Claim C6: an entry removed before the start has settled\<close>

lemma createDataForEntry_isDisposed:
  "createDataForEntry src eid data0 c = (failed, c1, evs) \<Longrightarrow> isDisposed c1 = isDisposed c"
  by (auto simp add: createDataForEntry_def Let_def split: option.splits prod.splits)

lemma create_all_isDisposed:
  "create_all src eids c = (failed, c1, evs) \<Longrightarrow> isDisposed c1 = isDisposed c"
proof (induction eids arbitrary: c failed c1 evs)
  case Nil
  then show ?case by simp
next
  case (Cons eid eids)
  obtain f1 c2 e1 where step: "createDataForEntry src eid (map_of (storage c) eid) c = (f1, c2, e1)"
    by (cases "createDataForEntry src eid (map_of (storage c) eid) c") auto
  obtain f2 c3 e2 where rest: "create_all src eids c2 = (f2, c3, e2)"
    by (cases "create_all src eids c2") auto
  from Cons.prems step rest have "c1 = c3" by simp
  moreover have "isDisposed c3 = isDisposed c2" using Cons.IH [OF rest] .
  moreover have "isDisposed c2 = isDisposed c" using createDataForEntry_isDisposed [OF step] .
  ultimately show ?case by simp
qed

lemma start_isDisposed: "isDisposed (fst (snd (start src c))) = isDisposed c"
proof (cases "getEntryIds src")
  case None
  then show ?thesis by (simp add: start_def start_try_def)
next
  case (Some r)
  show ?thesis
  proof (cases r)
    case (Inl err)
    with Some show ?thesis by (simp add: start_def start_try_def)
  next
    case (Inr entryIds)
    obtain failed c1 evs where run: "create_all src entryIds c = (failed, c1, evs)"
      by (cases "create_all src entryIds c") auto
    have "isDisposed c1 = isDisposed c" using create_all_isDisposed [OF run] .
    with Some Inr run show ?thesis
      by (simp add: start_def start_try_def split: option.splits)
  qed
qed

lemma start_resolves: "\<exists>ok. fst (start src c) = Inr ok"
  by (auto simp add: start_def split: prod.splits sum.splits)

lemma onEntryRemoved_live:
  assumes "\<not> isDisposed c"
  shows "\<exists>c' evs. onEntryRemoved eid (Inr ok) c = Inr (c', evs) \<and>
                   eid \<notin> set (Object_keys (storage c'))"
proof (cases "map_of (storage c) eid")
  case None
  then have "eid \<notin> set (Object_keys (storage c))"
    by (simp add: Object_keys_def map_of_eq_None_iff)
  with None assms show ?thesis
    by (simp add: onEntryRemoved_def suppressEvent_def)
next
  case (Some data)
  have "eid \<notin> set (Object_keys (AList.delete eid (storage c)))"
    by (simp add: Object_keys_def delete_keys)
  with Some assms show ?thesis
    by (simp add: onEntryRemoved_def suppressEvent_def Let_def)
qed

text \<open>
  C6: an entry-removed event delivered before \<^verbatim>\<open>start\<close> has settled. The handler waits for
  \<^verbatim>\<open>this.start\<close>, which always resolves, so the handler does not throw. When it resumes on a
  cache \<open>c\<close> that has not been disposed (whatever other handlers did to it meanwhile), it
  returns normally and the entry is not a key of the storage afterwards. In particular this
  holds on the cache exactly as \<^verbatim>\<open>start\<close> left it, for a freshly constructed cache.
\<close>

theorem onEntryRemoved_before_start:
  "(\<not> isDisposed c \<longrightarrow>
      (\<exists>c' evs. onEntryRemoved eid (fst (start src c0)) c = Inr (c', evs) \<and>
                 eid \<notin> set (Object_keys (storage c')))) \<and>
   (\<exists>c' evs. onEntryRemoved eid (fst (start src (new_SessionDataCache keys init)))
                 (fst (snd (start src (new_SessionDataCache keys init)))) = Inr (c', evs) \<and>
              eid \<notin> set (Object_keys (storage c')))"
proof -
  obtain ok where ok: "fst (start src c0) = Inr ok"
    using start_resolves by blast
  obtain ok' where ok': "fst (start src (new_SessionDataCache keys init)) = Inr ok'"
    using start_resolves by blast
  have live: "\<not> isDisposed (fst (snd (start src (new_SessionDataCache keys init))))"
    by (simp add: start_isDisposed new_SessionDataCache_def)
  show ?thesis
    using onEntryRemoved_live [of c eid ok] onEntryRemoved_live [OF live, of eid ok'] ok ok'
    by simp
qed

text \<open>
  An instance: the source lists the tabs 1 and 2, the fetch for tab 2 rejects (so the start
  resolves to \<^verbatim>\<open>false\<close>), and tab 2 was removed meanwhile.
\<close>

theorem onEntryRemoved_before_start_witness:
  "onEntryRemoved 2
     (fst (start \<lparr>getEntryIds = Some (Inr [1, 2]),
                   getStorageValue = Some (\<lambda>i k. if i = 1 then Inr (Some (Str ''red''))
                                                    else Inl (Error ''no such tab''))\<rparr>
             (new_SessionDataCache [''marked''] None)))
     (fst (snd (start \<lparr>getEntryIds = Some (Inr [1, 2]),
                   getStorageValue = Some (\<lambda>i k. if i = 1 then Inr (Some (Str ''red''))
                                                    else Inl (Error ''no such tab''))\<rparr>
             (new_SessionDataCache [''marked''] None))))
   = Inr (\<lparr>monitoredKeys = [''marked''], storage = [(1, [(''marked'', Str ''red'')])],
            isDisposed = False\<rparr>,
          [\<lparr>ch_entryId = 2, ch_key = None, ch_value = None\<rparr>]) \<and>
   2 \<notin> set (Object_keys [(1 :: int, [(''marked'', Str ''red'')])])"
proof -
  have computed:
    "onEntryRemoved 2
     (fst (start \<lparr>getEntryIds = Some (Inr [1, 2]),
                   getStorageValue = Some (\<lambda>i k. if i = 1 then Inr (Some (Str ''red''))
                                                    else Inl (Error ''no such tab''))\<rparr>
             (new_SessionDataCache [''marked''] None)))
     (fst (snd (start \<lparr>getEntryIds = Some (Inr [1, 2]),
                   getStorageValue = Some (\<lambda>i k. if i = 1 then Inr (Some (Str ''red''))
                                                    else Inl (Error ''no such tab''))\<rparr>
             (new_SessionDataCache [''marked''] None))))
     = Inr (\<lparr>monitoredKeys = [''marked''], storage = [(1, [(''marked'', Str ''red'')])],
            isDisposed = False\<rparr>,
          [\<lparr>ch_entryId = 2, ch_key = None, ch_value = None\<rparr>])"
    by (simp add: onEntryRemoved_def suppressEvent_def start_def start_try_def
        createDataForEntry_def new_SessionDataCache_def notifyDataChange_def Let_def)
  from onEntryRemoved_before_start
    [of c 2 "\<lparr>getEntryIds = Some (Inr [1, 2]),
                   getStorageValue = Some (\<lambda>i k. if i = 1 then Inr (Some (Str ''red''))
                                                    else Inl (Error ''no such tab''))\<rparr>"
        c0 "[''marked'']" None for c c0]
  have "\<exists>c' evs. onEntryRemoved 2
     (fst (start \<lparr>getEntryIds = Some (Inr [1, 2]),
                   getStorageValue = Some (\<lambda>i k. if i = 1 then Inr (Some (Str ''red''))
                                                    else Inl (Error ''no such tab''))\<rparr>
             (new_SessionDataCache [''marked''] None)))
     (fst (snd (start \<lparr>getEntryIds = Some (Inr [1, 2]),
                   getStorageValue = Some (\<lambda>i k. if i = 1 then Inr (Some (Str ''red''))
                                                    else Inl (Error ''no such tab''))\<rparr>
             (new_SessionDataCache [''marked''] None)))) = Inr (c', evs) \<and>
              2 \<notin> set (Object_keys (storage c'))"
    by (rule conjunct2)
  with computed show ?thesis by simp
qed



section \<open>Claim C9: a fact changed\<close>






section \<open>Claim C5: re-asserting the flags of an attached tab\<close>



















section \<open>Claims C2 and C3: \<^verbatim>\<open>set\<close> and the mirror's answer\<close>


lemma tst_getCache_not_allowed: "\<not> allowed c state \<Longrightarrow> tst_getCache state c = (None, c)"
  by (auto simp add: tst_getCache_def allowed_def split: option.splits)

lemma tst_getCache_allowed:
  "allowed c state \<Longrightarrow>
   \<exists>sc. tst_getCache state c = (Some sc, ensure state c) \<and>
        map_of (statesCaches (ensure state c)) state = Some sc"
  by (auto simp add: tst_getCache_def allowed_def ensure_def map_add_def split: option.splits)

lemma ensure_not_allowed: "\<not> allowed c state \<Longrightarrow> ensure state c = c"
  by (simp add: ensure_def tst_getCache_not_allowed)

lemma ensure_statesCaches:
  "statesCaches (ensure state c) =
    (if allowed c state \<and> map_of (statesCaches c) state = None
     then statesCaches c @ [(state, new_state_cache)] else statesCaches c)"
  by (auto simp add: ensure_def tst_getCache_def allowed_def split: option.splits)

lemma ensure_fields [simp]:
  "tst_isDisposed (ensure state c) = tst_isDisposed c"
  "classNames (ensure state c) = classNames c"
  by (auto simp add: ensure_def tst_getCache_def split: option.splits)

lemma allowed_ensure [simp]: "allowed (ensure state c) state' = allowed c state'"
  by (simp add: allowed_def)

lemma believed_ensure [simp]: "believed (ensure state c) tabId state' = believed c tabId state'"
  by (auto simp add: believed_def ensure_statesCaches new_state_cache_def map_add_def
      split: option.splits if_splits)

lemma ensure_idem [simp]: "ensure state (ensure state c) = ensure state c"
proof (cases "allowed c state")
  case False
  then show ?thesis by (simp add: ensure_not_allowed)
next
  case True
  then obtain sc where "map_of (statesCaches (ensure state c)) state = Some sc"
    using tst_getCache_allowed by blast
  then have "statesCaches (ensure state (ensure state c)) = statesCaches (ensure state c)"
    by (subst ensure_statesCaches) simp
  then show ?thesis
    by (simp add: ensure_def tst_getCache_def split: option.splits if_splits)
qed

lemma tst_get_eq: "tst_get tabId state c = (allowed c state \<and> believed c tabId state, ensure state c)"
proof (cases "allowed c state")
  case False
  then show ?thesis by (simp add: tst_get_def tst_getCache_not_allowed ensure_not_allowed)
next
  case True
  then obtain sc where sc: "tst_getCache state c = (Some sc, ensure state c)"
    and look: "map_of (statesCaches (ensure state c)) state = Some sc"
    using tst_getCache_allowed by blast
  have "believed (ensure state c) tabId state = (sc_cache sc tabId = Some True)"
    using look by (simp add: believed_def)
  then show ?thesis using True sc by (simp add: tst_get_def)
qed

lemma put_cache_fields [simp]:
  "tst_isDisposed (put_cache state tabId v c) = tst_isDisposed c"
  "classNames (put_cache state tabId v c) = classNames c"
  by (simp_all add: put_cache_def)

lemma allowed_put_cache [simp]: "allowed (put_cache state tabId v c) state' = allowed c state'"
  by (simp add: allowed_def)



lemma set_callback_begin_eq:
  "set_callback_begin tabId state v c =
    (if v = (allowed c state \<and> believed c tabId state) then Returned True
     else Calling \<lparr>mc_tabIds = [tabId], mc_states = [state], mc_present = v\<rparr>,
     ensure state c)"
  by (auto simp add: set_callback_begin_def tst_get_eq)

lemma set_callback_end_eq:
  "set_callback_end reply tabId state v c =
    (case reply of
       Acknowledged \<Rightarrow>
         (Inr True, if allowed c state then put_cache state tabId (Some v) (ensure state c) else c)
     | Refused \<Rightarrow> (Inr False, c)
     | Unreachable err \<Rightarrow> (Inr False, c))"
proof (cases reply)
  case Acknowledged
  show ?thesis
  proof (cases "allowed c state")
    case True
    then obtain sc where "tst_getCache state c = (Some sc, ensure state c)"
      using tst_getCache_allowed by blast
    with True Acknowledged show ?thesis
      by (simp add: set_callback_end_def set_callback_try_def)
  next
    case False
    with Acknowledged show ?thesis
      by (simp add: set_callback_end_def set_callback_try_def tst_getCache_not_allowed)
  qed
qed (simp_all add: set_callback_end_def set_callback_try_def)

lemma tst_set_eq:
  "tst_set reply tabId state v c =
    (if \<not> allowed c state then (Inr False, c, [])
     else if v = believed c tabId state then (Inr True, ensure state c, [])
     else
       (case reply of
          Acknowledged \<Rightarrow> Inr True
        | Refused \<Rightarrow> Inr False
        | Unreachable err \<Rightarrow> Inr False,
        (case reply of
           Acknowledged \<Rightarrow> put_cache state tabId (Some v) (ensure state c)
         | Refused \<Rightarrow> ensure state c
         | Unreachable err \<Rightarrow> ensure state c),
        [\<lparr>mc_tabIds = [tabId], mc_states = [state], mc_present = v\<rparr>]))"
proof (cases "allowed c state")
  case False
  then show ?thesis by (simp add: tst_set_def tst_getCache_not_allowed)
next
  case True
  then obtain sc where "tst_getCache state c = (Some sc, ensure state c)"
    using tst_getCache_allowed by blast
  with True show ?thesis
    by (cases reply) (simp_all add: tst_set_def set_callback_begin_eq set_callback_end_eq)
qed

lemma red_allowed: "allowed (new_TSTCustomStateCache (Some [''marked-red''])) ''marked-red''"
  by (simp add: allowed_def new_TSTCustomStateCache_def)

lemma red_not_believed:
  "\<not> believed (new_TSTCustomStateCache (Some [''marked-red''])) tabId ''marked-red''"
  by (simp add: believed_def new_TSTCustomStateCache_def)

lemma mirror_failure_step:
  assumes step: "exec (MirrorReplies i reply) m = Some m'"
    and failed: "reply \<noteq> Acknowledged"
  shows "op_phase (m_ops m' ! i) = CallbackReturned (Inr False) \<and>
         (\<forall>tabId' state'. fst (tst_get tabId' state' (m_cache m'))
                           = fst (tst_get tabId' state' (m_cache m)))"
proof -
  from step have i: "i < length (m_ops m)" and calling: "op_phase (m_ops m ! i) = InCallback"
    by (auto split: if_splits)
  from step i calling obtain v where kind: "op_kind (m_ops m ! i) = SetOp v"
    by (cases "op_kind (m_ops m ! i)") auto
  from failed have fin:
    "set_callback_end reply (op_tabId (m_ops m ! i)) (op_state (m_ops m ! i)) v (m_cache m)
       = (Inr False, m_cache m)"
    by (cases reply) (simp_all add: set_callback_end_eq)
  from step i calling kind fin
  have "m' = set_phase i (CallbackReturned (Inr False)) (m\<lparr>m_cache := m_cache m\<rparr>)"
    by simp
  with i show ?thesis by (simp add: set_phase_def)
qed

text \<open>
  C2: if \<^verbatim>\<open>set(entryId, stateName, v)\<close> called the mirror and the mirror refused or could not
  be reached, then \<^verbatim>\<open>set\<close> resolves to \<^verbatim>\<open>false\<close> (it does not reject), and
  \<^verbatim>\<open>get(entryId, stateName)\<close> afterwards is what it was before the call, which is not \<open>v\<close>;
  no other belief changes either. The same holds step by step when operations interleave: the
  step in which the mirror's failure reaches the callback of an operation changes no belief,
  and the callback returns \<^verbatim>\<open>false\<close>.
\<close>

theorem set_failure_keeps_belief:
  "(tst_set reply tabId state v c = (res, c', calls) \<and> calls \<noteq> [] \<and> reply \<noteq> Acknowledged \<longrightarrow>
      res = Inr False \<and>
      fst (tst_get tabId state c') = fst (tst_get tabId state c) \<and>
      fst (tst_get tabId state c') \<noteq> v \<and>
      (\<forall>tabId' state'. fst (tst_get tabId' state' c') = fst (tst_get tabId' state' c))) \<and>
   (exec (MirrorReplies i reply) m = Some m' \<and> reply \<noteq> Acknowledged \<longrightarrow>
      op_phase (m_ops m' ! i) = CallbackReturned (Inr False) \<and>
      (\<forall>tabId' state'. fst (tst_get tabId' state' (m_cache m'))
                        = fst (tst_get tabId' state' (m_cache m))))"
proof (intro conjI impI)
  assume run: "tst_set reply tabId state v c = (res, c', calls) \<and> calls \<noteq> [] \<and> reply \<noteq> Acknowledged"
  then have allowed: "allowed c state" and differs: "v \<noteq> believed c tabId state"
    by (auto simp add: tst_set_eq split: if_splits)
  from run allowed differs have res: "res = Inr False" and c': "c' = ensure state c"
    by (cases reply; simp add: tst_set_eq)+
  from res show "res = Inr False" .
  from c' show "fst (tst_get tabId state c') = fst (tst_get tabId state c)"
    by (simp add: tst_get_eq)
  from c' allowed differs show "fst (tst_get tabId state c') \<noteq> v"
    by (auto simp add: tst_get_eq)
  from c' show "\<forall>tabId' state'. fst (tst_get tabId' state' c') = fst (tst_get tabId' state' c)"
    by (simp add: tst_get_eq)
next
  assume "exec (MirrorReplies i reply) m = Some m' \<and> reply \<noteq> Acknowledged"
  then have step: "exec (MirrorReplies i reply) m = Some m'" and failed: "reply \<noteq> Acknowledged"
    by simp_all
  from mirror_failure_step [OF step failed]
  show "op_phase (m_ops m' ! i) = CallbackReturned (Inr False)"
    and "\<forall>tabId' state'. fst (tst_get tabId' state' (m_cache m'))
                        = fst (tst_get tabId' state' (m_cache m))"
    by simp_all
qed

text \<open>An instance: a refused call for tab 7.\<close>

theorem set_failure_keeps_belief_witness:
  "fst (tst_set Refused 7 ''marked-red'' True (new_TSTCustomStateCache (Some [''marked-red'']))) = Inr False \<and>
   snd (snd (tst_set Refused 7 ''marked-red'' True (new_TSTCustomStateCache (Some [''marked-red'']))))
     = [\<lparr>mc_tabIds = [7], mc_states = [''marked-red''], mc_present = True\<rparr>] \<and>
   fst (tst_get 7 ''marked-red''
         (fst (snd (tst_set Refused 7 ''marked-red'' True
                      (new_TSTCustomStateCache (Some [''marked-red'']))))))
     = fst (tst_get 7 ''marked-red'' (new_TSTCustomStateCache (Some [''marked-red''])))"
proof -
  let ?c = "new_TSTCustomStateCache (Some [''marked-red''])"
  let ?run = "tst_set Refused 7 ''marked-red'' True ?c"
  have called: "snd (snd ?run) = [\<lparr>mc_tabIds = [7], mc_states = [''marked-red''], mc_present = True\<rparr>]"
    by (simp add: tst_set_eq red_allowed red_not_believed)
  have "?run = (fst ?run, fst (snd ?run), snd (snd ?run))" by simp
  with set_failure_keeps_belief [of Refused 7 "''marked-red''" True ?c "fst ?run" "fst (snd ?run)"
      "snd (snd ?run)"] called
  show ?thesis by simp
qed






section \<open>Claim C4: the batched push\<close>

















section \<open>Claim C1: queued operations of one scope run one at a time, in order\<close>


lemma pending_of_ensure [simp]: "pending_of (ensure state c) = pending_of c"
  by (rule ext)
     (auto simp add: pending_of_def ensure_statesCaches new_state_cache_def map_add_def
       split: option.splits)

lemma pending_of_put_cache [simp]: "pending_of (put_cache state tabId v c) = pending_of c"
  by (rule ext) (auto simp add: pending_of_def put_cache_def map_of_map_entry split: option.splits)

lemma pending_of_put_ops:
  "pending_of (put_ops state tabId p c) scope =
    (if scope = (tabId, state) \<and> map_of (statesCaches c) state \<noteq> None then p
     else pending_of c scope)"
  by (cases scope)
     (auto simp add: pending_of_def put_ops_def map_of_map_entry split: option.splits)

lemma put_ops_isDisposed [simp]: "tst_isDisposed (put_ops state tabId p c) = tst_isDisposed c"
  by (simp add: put_ops_def)

lemma tst_getCache_pending:
  "tst_getCache state c = (Some sc, c1) \<Longrightarrow>
   c1 = ensure state c \<and> allowed c state \<and> sc_ops sc tabId = pending_of c (tabId, state) \<and>
   map_of (statesCaches c1) state \<noteq> None"
proof -
  assume got: "tst_getCache state c = (Some sc, c1)"
  then have allowed: "allowed c state"
    using tst_getCache_not_allowed [of c state] by (cases "allowed c state") auto
  then obtain sc' where sc': "tst_getCache state c = (Some sc', ensure state c)"
    and look: "map_of (statesCaches (ensure state c)) state = Some sc'"
    using tst_getCache_allowed by blast
  from got sc' have same: "sc' = sc" "c1 = ensure state c" by simp_all
  have "pending_of (ensure state c) (tabId, state) = sc_ops sc tabId"
    unfolding pending_of_def using look same by simp
  then have "pending_of c (tabId, state) = sc_ops sc tabId" by simp
  with same allowed look show ?thesis by simp
qed

lemma earlier_settled:
  assumes inv: "queue_inv m"
    and i: "i < length (m_ops m)"
    and ready: "lastResult m (m_ops m ! i) = Some r"
    and k: "k < i"
    and same: "scope_of (m_ops m ! k) = scope_of (m_ops m ! i)"
  shows "is_settled (op_phase (m_ops m ! k))"
proof (cases "op_lastOp (m_ops m ! i)")
  case None
  from inv have "inv_first m" by (simp add: queue_inv_def)
  with i None k same show ?thesis unfolding inv_first_def by blast
next
  case (Some p)
  from inv have "inv_lastOp m" by (simp add: queue_inv_def)
  with i Some have p: "p < i" and p_scope: "scope_of (m_ops m ! p) = scope_of (m_ops m ! i)"
    and between: "\<And>k. p < k \<Longrightarrow> k < i \<Longrightarrow> scope_of (m_ops m ! k) \<noteq> scope_of (m_ops m ! i)"
    unfolding inv_lastOp_def by blast+
  from ready Some have p_settled: "op_phase (m_ops m ! p) = Settled r"
    by (auto simp add: lastResult_def split: if_splits op_phase.splits)
  from between k same have "k \<le> p" by (meson not_less)
  show ?thesis
  proof (cases "k = p")
    case True
    with p_settled show ?thesis by simp
  next
    case False
    with \<open>k \<le> p\<close> have "k < p" by simp
    moreover from p i have "p < length (m_ops m)" by simp
    moreover from same p_scope have "scope_of (m_ops m ! k) = scope_of (m_ops m ! p)" by simp
    moreover from p_settled have "op_phase (m_ops m ! p) \<noteq> AwaitingLastOp" by simp
    moreover from inv have "in_order m" by (simp add: queue_inv_def)
    ultimately show ?thesis unfolding in_order_def by blast
  qed
qed

lemma inv_phase_change:
  assumes inv: "queue_inv m"
    and i: "i < length (m_ops m)"
    and ops': "m_ops m' = (m_ops m)[i := op']"
    and scope: "scope_of op' = scope_of (m_ops m ! i)"
    and last: "op_lastOp op' = op_lastOp (m_ops m ! i)"
    and disp: "tst_isDisposed (m_cache m') = tst_isDisposed (m_cache m)"
    and pend: "pending_of (m_cache m') = pending_of (m_cache m)"
    and mono: "is_settled (op_phase (m_ops m ! i)) \<Longrightarrow> is_settled (op_phase op')"
    and begun: "\<And>k. op_phase op' \<noteq> AwaitingLastOp \<Longrightarrow> op_phase (m_ops m ! i) = AwaitingLastOp \<Longrightarrow>
                  k < i \<Longrightarrow> scope_of (m_ops m ! k) = scope_of (m_ops m ! i) \<Longrightarrow>
                  is_settled (op_phase (m_ops m ! k))"
  shows "queue_inv m'"
proof -
  have len: "length (m_ops m') = length (m_ops m)" using ops' by simp
  have sc: "scope_of (m_ops m' ! k) = scope_of (m_ops m ! k)" if "k < length (m_ops m)" for k
    using that ops' scope by (cases "k = i") simp_all
  have lo: "op_lastOp (m_ops m' ! k) = op_lastOp (m_ops m ! k)" if "k < length (m_ops m)" for k
    using that ops' last by (cases "k = i") simp_all
  have st: "is_settled (op_phase (m_ops m' ! k))"
    if "k < length (m_ops m)" and "is_settled (op_phase (m_ops m ! k))" for k
    using that ops' mono by (cases "k = i") simp_all
  have other: "op_phase (m_ops m' ! k) = op_phase (m_ops m ! k)" if "k \<noteq> i" for k
    using that ops' by simp
  have here: "m_ops m' ! i = op'" using ops' i by simp
  from inv have A: "inv_lastOp m" and B: "inv_first m" and C: "in_order m"
    and D: "inv_pending m" and E: "inv_idle m"
    by (simp_all add: queue_inv_def)
  have A': "inv_lastOp m'"
    unfolding inv_lastOp_def
  proof (intro allI impI)
    fix j p
    assume j: "j < length (m_ops m')" and p: "op_lastOp (m_ops m' ! j) = Some p"
    from j len have j': "j < length (m_ops m)" by simp
    with p lo have "op_lastOp (m_ops m ! j) = Some p" by simp
    with A j' have old: "p < j" "scope_of (m_ops m ! p) = scope_of (m_ops m ! j)"
      "\<And>k. p < k \<Longrightarrow> k < j \<Longrightarrow> scope_of (m_ops m ! k) \<noteq> scope_of (m_ops m ! j)"
      unfolding inv_lastOp_def by blast+
    from old(1) j' have p': "p < length (m_ops m)" by simp
    show "p < j \<and> scope_of (m_ops m' ! p) = scope_of (m_ops m' ! j) \<and>
          (\<forall>k. p < k \<longrightarrow> k < j \<longrightarrow> scope_of (m_ops m' ! k) \<noteq> scope_of (m_ops m' ! j))"
    proof (intro conjI allI impI)
      show "p < j" by (rule old(1))
      show "scope_of (m_ops m' ! p) = scope_of (m_ops m' ! j)"
        using old(2) sc [OF p'] sc [OF j'] by simp
    next
      fix k assume k: "p < k" "k < j"
      then have "k < length (m_ops m)" using j' by simp
      from sc [OF this] sc [OF j'] old(3) [OF k]
      show "scope_of (m_ops m' ! k) \<noteq> scope_of (m_ops m' ! j)" by simp
    qed
  qed
  have B': "inv_first m'"
    unfolding inv_first_def
  proof (intro allI impI)
    fix j k
    assume j: "j < length (m_ops m')" and none: "op_lastOp (m_ops m' ! j) = None"
      and k: "k < j" and same: "scope_of (m_ops m' ! k) = scope_of (m_ops m' ! j)"
    from j len have j': "j < length (m_ops m)" by simp
    from k j' have k': "k < length (m_ops m)" by simp
    from none lo [OF j'] have "op_lastOp (m_ops m ! j) = None" by simp
    moreover from same sc [OF k'] sc [OF j']
    have "scope_of (m_ops m ! k) = scope_of (m_ops m ! j)" by simp
    ultimately have "is_settled (op_phase (m_ops m ! k))"
      using B j' k unfolding inv_first_def by blast
    then show "is_settled (op_phase (m_ops m' ! k))" by (rule st [OF k'])
  qed
  have C': "in_order m'"
    unfolding in_order_def
  proof (intro allI impI)
    fix a b
    assume ab: "a < b" and b: "b < length (m_ops m')"
      and same: "scope_of (m_ops m' ! a) = scope_of (m_ops m' ! b)"
      and started: "op_phase (m_ops m' ! b) \<noteq> AwaitingLastOp"
    from b len have b': "b < length (m_ops m)" by simp
    from ab b' have a': "a < length (m_ops m)" by simp
    from same sc [OF a'] sc [OF b']
    have same': "scope_of (m_ops m ! a) = scope_of (m_ops m ! b)" by simp
    have "is_settled (op_phase (m_ops m ! a))"
    proof (cases "op_phase (m_ops m ! b) = AwaitingLastOp")
      case False
      with C ab b' same' show ?thesis unfolding in_order_def by blast
    next
      case True
      with started other [of b] have "b = i" by auto
      with started here True ab same' begun [of a] show ?thesis by simp
    qed
    then show "is_settled (op_phase (m_ops m' ! a))" by (rule st [OF a'])
  qed
  have D': "inv_pending m'"
    unfolding inv_pending_def
  proof (intro allI impI)
    fix scope p
    assume live: "\<not> tst_isDisposed (m_cache m')" and p: "pending_of (m_cache m') scope = Some p"
    from live disp have "\<not> tst_isDisposed (m_cache m)" by simp
    moreover from p pend have "pending_of (m_cache m) scope = Some p" by simp
    ultimately have old: "p < length (m_ops m)" "scope_of (m_ops m ! p) = scope"
      "\<And>k. p < k \<Longrightarrow> k < length (m_ops m) \<Longrightarrow> scope_of (m_ops m ! k) \<noteq> scope"
      using D unfolding inv_pending_def by blast+
    show "p < length (m_ops m') \<and> scope_of (m_ops m' ! p) = scope \<and>
          (\<forall>k. p < k \<longrightarrow> k < length (m_ops m') \<longrightarrow> scope_of (m_ops m' ! k) \<noteq> scope)"
      using old len sc by auto
  qed
  have E': "inv_idle m'"
    unfolding inv_idle_def
  proof (intro allI impI)
    fix j
    assume live: "\<not> tst_isDisposed (m_cache m')" and j: "j < length (m_ops m')"
      and idle: "pending_of (m_cache m') (scope_of (m_ops m' ! j)) = None"
    from j len have j': "j < length (m_ops m)" by simp
    from live disp have "\<not> tst_isDisposed (m_cache m)" by simp
    moreover from idle pend sc [OF j']
    have "pending_of (m_cache m) (scope_of (m_ops m ! j)) = None" by simp
    ultimately have "is_settled (op_phase (m_ops m ! j))"
      using E j' unfolding inv_idle_def by blast
    then show "is_settled (op_phase (m_ops m' ! j))" by (rule st [OF j'])
  qed
  from A' B' C' D' E' show ?thesis by (simp add: queue_inv_def)
qed

lemma inv_cache_change:
  assumes "queue_inv m"
    and "m_ops m' = m_ops m"
    and "tst_isDisposed (m_cache m') = tst_isDisposed (m_cache m)"
    and "pending_of (m_cache m') = pending_of (m_cache m)"
  shows "queue_inv m'"
  using assms
  by (simp add: queue_inv_def inv_lastOp_def inv_first_def in_order_def inv_pending_def
      inv_idle_def)

lemma inv_dispose:
  assumes "queue_inv m"
  shows "queue_inv (m\<lparr>m_cache := tst_dispose (m_cache m)\<rparr>)"
proof (cases "tst_isDisposed (m_cache m)")
  case True
  then have "m\<lparr>m_cache := tst_dispose (m_cache m)\<rparr> = m" by (simp add: tst_dispose_def)
  with assms show ?thesis by simp
next
  case False
  then have "tst_isDisposed (m_cache (m\<lparr>m_cache := tst_dispose (m_cache m)\<rparr>))"
    by (simp add: tst_dispose_def)
  with assms show ?thesis
    by (simp add: queue_inv_def inv_lastOp_def inv_first_def in_order_def inv_pending_def
        inv_idle_def)
qed

lemma inv_queueOp_begin:
  assumes inv: "queue_inv m"
  shows "queue_inv (queueOp_begin tabId state kind ret dflt m)"
proof (cases "tst_getCache state (m_cache m)")
  case (Pair found c1)
  show ?thesis
  proof (cases found)
    case None
    with Pair have "c1 = m_cache m"
      by (auto simp add: tst_getCache_def split: if_splits option.splits)
    with Pair None have "queueOp_begin tabId state kind ret dflt m = m"
      by (simp add: queueOp_begin_def)
    with inv show ?thesis by simp
  next
    case (Some sc)
    let ?c = "m_cache m"
    let ?n = "length (m_ops m)"
    let ?new = "\<lparr>op_tabId = tabId, op_state = state, op_kind = kind,
               op_setOpReturnValue = ret, op_lastOp = sc_ops sc tabId,
               op_phase = AwaitingLastOp, op_value = dflt, op_outerError = None,
               op_finished = False\<rparr>"
    let ?m' = "queueOp_begin tabId state kind ret dflt m"
    from Pair Some have got: "tst_getCache state ?c = (Some sc, c1)" by simp
    from tst_getCache_pending [OF got, of tabId]
    have c1: "c1 = ensure state ?c" and allowed: "allowed ?c state"
      and last: "sc_ops sc tabId = pending_of ?c (tabId, state)"
      and present: "map_of (statesCaches c1) state \<noteq> None"
      by blast+
    from allowed have live: "\<not> tst_isDisposed ?c" by (simp add: allowed_def)
    from Pair Some have m': "?m' = m\<lparr>m_cache := put_ops state tabId (Some ?n) c1, m_ops := m_ops m @ [?new]\<rparr>"
      by (simp add: queueOp_begin_def)
    have ops': "m_ops ?m' = m_ops m @ [?new]" by (simp add: m')
    have len: "length (m_ops ?m') = Suc ?n" by (simp add: ops')
    have old: "m_ops ?m' ! k = m_ops m ! k" if "k < ?n" for k
      using that by (simp add: ops' nth_append)
    have new: "m_ops ?m' ! ?n = ?new" by (simp add: ops')
    have new_scope: "scope_of ?new = (tabId, state)" by (simp add: scope_of_def)
    have pend: "pending_of (m_cache ?m') scope =
                  (if scope = (tabId, state) then Some ?n else pending_of ?c scope)" for scope
      using present by (simp add: m' pending_of_put_ops c1)
    have live': "\<not> tst_isDisposed (m_cache ?m')" using live by (simp add: m' c1)
    from inv have A: "inv_lastOp m" and B: "inv_first m" and C: "in_order m"
      and D: "inv_pending m" and E: "inv_idle m"
      by (simp_all add: queue_inv_def)
    have A': "inv_lastOp ?m'"
      unfolding inv_lastOp_def
    proof (intro allI impI)
      fix j p
      assume j: "j < length (m_ops ?m')" and p: "op_lastOp (m_ops ?m' ! j) = Some p"
      show "p < j \<and> scope_of (m_ops ?m' ! p) = scope_of (m_ops ?m' ! j) \<and>
            (\<forall>k. p < k \<longrightarrow> k < j \<longrightarrow> scope_of (m_ops ?m' ! k) \<noteq> scope_of (m_ops ?m' ! j))"
      proof (cases "j < ?n")
        case True
        with p old have "op_lastOp (m_ops m ! j) = Some p" by simp
        with A True have facts: "p < j" "scope_of (m_ops m ! p) = scope_of (m_ops m ! j)"
          "\<And>k. p < k \<Longrightarrow> k < j \<Longrightarrow> scope_of (m_ops m ! k) \<noteq> scope_of (m_ops m ! j)"
          unfolding inv_lastOp_def by blast+
        with True show ?thesis using old by auto
      next
        case False
        with j len have jn: "j = ?n" by simp
        with p new last have "pending_of ?c (tabId, state) = Some p" by simp
        with D live have facts: "p < ?n" "scope_of (m_ops m ! p) = (tabId, state)"
          "\<And>k. p < k \<Longrightarrow> k < ?n \<Longrightarrow> scope_of (m_ops m ! k) \<noteq> (tabId, state)"
          unfolding inv_pending_def by blast+
        with jn show ?thesis using old new new_scope by auto
      qed
    qed
    have B': "inv_first ?m'"
      unfolding inv_first_def
    proof (intro allI impI)
      fix j k
      assume j: "j < length (m_ops ?m')" and none: "op_lastOp (m_ops ?m' ! j) = None"
        and k: "k < j" and same: "scope_of (m_ops ?m' ! k) = scope_of (m_ops ?m' ! j)"
      show "is_settled (op_phase (m_ops ?m' ! k))"
      proof (cases "j < ?n")
        case True
        with k have kn: "k < ?n" by simp
        from none same True kn old have "op_lastOp (m_ops m ! j) = None"
          and "scope_of (m_ops m ! k) = scope_of (m_ops m ! j)" by simp_all
        with B True k have "is_settled (op_phase (m_ops m ! k))"
          unfolding inv_first_def by blast
        with kn old show ?thesis by simp
      next
        case False
        with j len have jn: "j = ?n" by simp
        with k have kn: "k < ?n" by simp
        from none jn new last have "pending_of ?c (tabId, state) = None" by simp
        moreover from same jn kn old new new_scope
        have "scope_of (m_ops m ! k) = (tabId, state)" by simp
        ultimately have "is_settled (op_phase (m_ops m ! k))"
          using E live kn unfolding inv_idle_def by metis
        with kn old show ?thesis by simp
      qed
    qed
    have C': "in_order ?m'"
      unfolding in_order_def
    proof (intro allI impI)
      fix a b
      assume ab: "a < b" and b: "b < length (m_ops ?m')"
        and same: "scope_of (m_ops ?m' ! a) = scope_of (m_ops ?m' ! b)"
        and started: "op_phase (m_ops ?m' ! b) \<noteq> AwaitingLastOp"
      have "b < ?n"
      proof (rule ccontr)
        assume "\<not> b < ?n"
        with b len have "b = ?n" by simp
        with started new show False by simp
      qed
      with ab have "a < ?n" by simp
      with \<open>b < ?n\<close> same started old
      have "scope_of (m_ops m ! a) = scope_of (m_ops m ! b)"
        and "op_phase (m_ops m ! b) \<noteq> AwaitingLastOp" by simp_all
      with C ab \<open>b < ?n\<close> have "is_settled (op_phase (m_ops m ! a))"
        unfolding in_order_def by blast
      with \<open>a < ?n\<close> old show "is_settled (op_phase (m_ops ?m' ! a))" by simp
    qed
    have D': "inv_pending ?m'"
      unfolding inv_pending_def
    proof (intro allI impI)
      fix scope p
      assume p: "pending_of (m_cache ?m') scope = Some p"
      show "p < length (m_ops ?m') \<and> scope_of (m_ops ?m' ! p) = scope \<and>
            (\<forall>k. p < k \<longrightarrow> k < length (m_ops ?m') \<longrightarrow> scope_of (m_ops ?m' ! k) \<noteq> scope)"
      proof (cases "scope = (tabId, state)")
        case True
        with p pend have "p = ?n" by simp
        with True show ?thesis using len new new_scope by simp
      next
        case False
        with p pend have "pending_of ?c scope = Some p" by simp
        with D live have facts: "p < ?n" "scope_of (m_ops m ! p) = scope"
          "\<And>k. p < k \<Longrightarrow> k < ?n \<Longrightarrow> scope_of (m_ops m ! k) \<noteq> scope"
          unfolding inv_pending_def by blast+
        show ?thesis
        proof (intro conjI allI impI)
          show "p < length (m_ops ?m')" using facts(1) len by simp
          show "scope_of (m_ops ?m' ! p) = scope" using facts(1,2) old by simp
        next
          fix k assume k: "p < k" "k < length (m_ops ?m')"
          show "scope_of (m_ops ?m' ! k) \<noteq> scope"
          proof (cases "k < ?n")
            case True
            with facts(3) k(1) old show ?thesis by simp
          next
            case notless: False
            with k(2) len have "k = ?n" by simp
            with new new_scope False show ?thesis by simp
          qed
        qed
      qed
    qed
    have E': "inv_idle ?m'"
      unfolding inv_idle_def
    proof (intro allI impI)
      fix j
      assume j: "j < length (m_ops ?m')"
        and idle: "pending_of (m_cache ?m') (scope_of (m_ops ?m' ! j)) = None"
      from idle pend have other: "scope_of (m_ops ?m' ! j) \<noteq> (tabId, state)"
        by (cases "scope_of (m_ops ?m' ! j) = (tabId, state)") simp_all
      have jn: "j < ?n"
      proof (rule ccontr)
        assume "\<not> j < ?n"
        with j len have "j = ?n" by simp
        with other new new_scope show False by simp
      qed
      from idle pend other have "pending_of ?c (scope_of (m_ops ?m' ! j)) = None" by simp
      with jn old have "pending_of ?c (scope_of (m_ops m ! j)) = None" by simp
      with E live jn have "is_settled (op_phase (m_ops m ! j))"
        unfolding inv_idle_def by blast
      with jn old show "is_settled (op_phase (m_ops ?m' ! j))" by simp
    qed
    from A' B' C' D' E' show ?thesis by (simp add: queue_inv_def)
  qed
qed

lemma inv_forget:
  assumes inv: "queue_inv m"
    and live: "\<not> tst_isDisposed (m_cache m)"
    and last: "pending_of (m_cache m) scope = Some i"
    and settled: "is_settled (op_phase (m_ops m ! i))"
    and ops': "m_ops m' = m_ops m"
    and disp: "tst_isDisposed (m_cache m') = tst_isDisposed (m_cache m)"
    and pend: "pending_of (m_cache m') = (pending_of (m_cache m))(scope := None)"
  shows "queue_inv m'"
proof -
  from inv have A: "inv_lastOp m" and B: "inv_first m" and C: "in_order m"
    and D: "inv_pending m" and E: "inv_idle m"
    by (simp_all add: queue_inv_def)
  from D live last have i: "i < length (m_ops m)" and i_scope: "scope_of (m_ops m ! i) = scope"
    and latest: "\<And>k. i < k \<Longrightarrow> k < length (m_ops m) \<Longrightarrow> scope_of (m_ops m ! k) \<noteq> scope"
    unfolding inv_pending_def by blast+
  have A': "inv_lastOp m'" using A ops' by (simp add: inv_lastOp_def)
  have B': "inv_first m'" using B ops' by (simp add: inv_first_def)
  have C': "in_order m'" using C ops' by (simp add: in_order_def)
  have D': "inv_pending m'"
    unfolding inv_pending_def
  proof (intro allI impI)
    fix scope' p
    assume "pending_of (m_cache m') scope' = Some p"
    with pend have "pending_of (m_cache m) scope' = Some p"
      by (cases "scope' = scope") simp_all
    with D live
    have "p < length (m_ops m) \<and> scope_of (m_ops m ! p) = scope' \<and>
          (\<forall>k. p < k \<longrightarrow> k < length (m_ops m) \<longrightarrow> scope_of (m_ops m ! k) \<noteq> scope')"
      unfolding inv_pending_def by blast
    then show "p < length (m_ops m') \<and> scope_of (m_ops m' ! p) = scope' \<and>
          (\<forall>k. p < k \<longrightarrow> k < length (m_ops m') \<longrightarrow> scope_of (m_ops m' ! k) \<noteq> scope')"
      unfolding ops' .
  qed
  have E': "inv_idle m'"
    unfolding inv_idle_def
  proof (intro allI impI)
    fix j
    assume j: "j < length (m_ops m')"
      and idle: "pending_of (m_cache m') (scope_of (m_ops m' ! j)) = None"
    from j ops' have j': "j < length (m_ops m)" by simp
    show "is_settled (op_phase (m_ops m' ! j))"
    proof (cases "scope_of (m_ops m ! j) = scope")
      case False
      with idle pend ops' have "pending_of (m_cache m) (scope_of (m_ops m ! j)) = None" by simp
      with E live j' have "is_settled (op_phase (m_ops m ! j))"
        unfolding inv_idle_def by blast
      with ops' show ?thesis by simp
    next
      case True
      with latest [of j] j' have "j \<le> i" by (meson not_less)
      show ?thesis
      proof (cases "j = i")
        case same: True
        with settled ops' show ?thesis by simp
      next
        case False
        with \<open>j \<le> i\<close> have "j < i" by simp
        moreover from settled have "op_phase (m_ops m ! i) \<noteq> AwaitingLastOp" by auto
        moreover from True i_scope have "scope_of (m_ops m ! j) = scope_of (m_ops m ! i)" by simp
        ultimately have "is_settled (op_phase (m_ops m ! j))"
          using C i unfolding in_order_def by blast
        with ops' show ?thesis by simp
      qed
    qed
  qed
  from A' B' C' D' E' show ?thesis by (simp add: queue_inv_def)
qed

lemma inv_removed:
  "queue_inv m \<Longrightarrow>
   queue_inv (foldl (\<lambda>m' state. queueOp_begin tabId state TabRemovedOp True None m') m states)"
  by (induction states arbitrary: m) (simp_all add: inv_queueOp_begin)

lemma callback_begin_frame:
  assumes "callback_begin op m = (ph, m1)"
  shows "m_ops m1 = m_ops m \<and> tst_isDisposed (m_cache m1) = tst_isDisposed (m_cache m) \<and>
         pending_of (m_cache m1) = pending_of (m_cache m) \<and> ph \<noteq> AwaitingLastOp"
proof (cases "op_kind op")
  case (SetOp v)
  with assms show ?thesis
    by (auto simp add: callback_begin_def set_callback_begin_eq split: if_splits)
next
  case TabRemovedOp
  show ?thesis
  proof (cases "tst_getCache (op_state op) (m_cache m)")
    case (Pair found c1)
    show ?thesis
    proof (cases found)
      case None
      with Pair have "c1 = m_cache m"
        by (auto simp add: tst_getCache_def split: if_splits option.splits)
      with assms TabRemovedOp Pair None show ?thesis
        by (auto simp add: callback_begin_def)
    next
      case (Some sc)
      with Pair tst_getCache_pending [of "op_state op" "m_cache m" sc c1]
      have "c1 = ensure (op_state op) (m_cache m)" by simp
      with assms TabRemovedOp Pair Some show ?thesis
        by (auto simp add: callback_begin_def)
    qed
  qed
qed

lemma set_callback_end_frame:
  assumes "set_callback_end reply tabId state v c = (res, c1)"
  shows "tst_isDisposed c1 = tst_isDisposed c \<and> pending_of c1 = pending_of c"
  using assms by (cases reply) (auto simp add: set_callback_end_eq split: if_splits)

lemma inv_exec:
  assumes inv: "queue_inv m" and step: "exec a m = Some m'"
  shows "queue_inv m'"
proof (cases a)
  case (CallSet tabId state v)
  with step inv show ?thesis by (auto simp add: inv_queueOp_begin)
next
  case (TabRemoved tabId)
  with step inv show ?thesis by (auto simp add: inv_removed)
next
  case (ResumeOp i)
  from step ResumeOp have i: "i < length (m_ops m)"
    and waiting: "op_phase (m_ops m ! i) = AwaitingLastOp"
    by (auto split: if_splits)
  from step ResumeOp i waiting obtain r where ready: "lastResult m (m_ops m ! i) = Some r"
    by (cases "lastResult m (m_ops m ! i)") auto
  note before = earlier_settled [OF inv i ready]
  have plain: "queue_inv (set_phase i ph m)" for ph
    by (rule inv_phase_change [OF inv i, where op' = "(m_ops m ! i)\<lparr>op_phase := ph\<rparr>"])
       (simp_all add: set_phase_def scope_of_def waiting before)
  show ?thesis
  proof (cases "r \<or> tst_isDisposed (m_cache m)")
    case True
    with step ResumeOp i waiting ready have "m' = set_phase i (Settled r) m"
      by (cases r) (auto split: if_splits)
    with plain show ?thesis by simp
  next
    case False
    obtain ph m1 where cb: "callback_begin (m_ops m ! i) m = (ph, m1)"
      by (cases "callback_begin (m_ops m ! i) m") auto
    from callback_begin_frame [OF cb]
    have ops1: "m_ops m1 = m_ops m"
      and disp1: "tst_isDisposed (m_cache m1) = tst_isDisposed (m_cache m)"
      and pend1: "pending_of (m_cache m1) = pending_of (m_cache m)"
      by simp_all
    have inv1: "queue_inv m1"
      by (rule inv_cache_change [OF inv ops1 disp1 pend1])
    from step ResumeOp i waiting ready False cb have m': "m' = set_phase i ph m1"
      by auto
    have i1: "i < length (m_ops m1)" using i ops1 by simp
    have "queue_inv (set_phase i ph m1)"
      by (rule inv_phase_change [OF inv1 i1, where op' = "(m_ops m1 ! i)\<lparr>op_phase := ph\<rparr>"])
         (simp_all add: set_phase_def scope_of_def ops1 waiting before)
    with m' show ?thesis by simp
  qed
next
  case (MirrorReplies i reply)
  from step MirrorReplies have i: "i < length (m_ops m)"
    and calling: "op_phase (m_ops m ! i) = InCallback"
    by (auto split: if_splits)
  from step MirrorReplies i calling obtain v where kind: "op_kind (m_ops m ! i) = SetOp v"
    by (cases "op_kind (m_ops m ! i)") auto
  obtain res c1 where fin:
    "set_callback_end reply (op_tabId (m_ops m ! i)) (op_state (m_ops m ! i)) v (m_cache m) = (res, c1)"
    by (cases "set_callback_end reply (op_tabId (m_ops m ! i)) (op_state (m_ops m ! i)) v (m_cache m)")
       auto
  from step MirrorReplies i calling kind fin
  have m': "m' = set_phase i (CallbackReturned res) (m\<lparr>m_cache := c1\<rparr>)"
    by simp
  from set_callback_end_frame [OF fin]
  have disp: "tst_isDisposed c1 = tst_isDisposed (m_cache m)"
    and pend: "pending_of c1 = pending_of (m_cache m)" by simp_all
  have "queue_inv (set_phase i (CallbackReturned res) (m\<lparr>m_cache := c1\<rparr>))"
    by (rule inv_phase_change [OF inv i, where op' = "(m_ops m ! i)\<lparr>op_phase := CallbackReturned res\<rparr>"])
       (simp_all add: set_phase_def scope_of_def disp pend calling)
  with m' show ?thesis by simp
next
  case (ContinueOp i)
  from step ContinueOp have i: "i < length (m_ops m)" by (auto split: if_splits)
  from step ContinueOp i obtain res where returned: "op_phase (m_ops m ! i) = CallbackReturned res"
    by (cases "op_phase (m_ops m ! i)") auto
  from step ContinueOp i returned obtain op' where
    m': "m' = m\<lparr>m_ops := (m_ops m)[i := op']\<rparr>"
    and scope: "scope_of op' = scope_of (m_ops m ! i)"
    and last: "op_lastOp op' = op_lastOp (m_ops m ! i)"
    by (cases res) (auto simp add: Let_def scope_of_def)
  have "queue_inv (m\<lparr>m_ops := (m_ops m)[i := op']\<rparr>)"
    by (rule inv_phase_change [OF inv i, where op' = op'])
       (simp_all add: scope last returned)
  with m' show ?thesis by simp
next
  case (FinishOp i)
  from step FinishOp have i: "i < length (m_ops m)" by (auto split: if_splits)
  from step FinishOp i obtain r where settled: "op_phase (m_ops m ! i) = Settled r"
    by (cases "op_phase (m_ops m ! i)") (auto split: if_splits)
  let ?op = "m_ops m ! i"
  let ?m1 = "m\<lparr>m_ops := (m_ops m)[i := ?op\<lparr>op_finished := True\<rparr>]\<rparr>"
  have inv1: "queue_inv ?m1"
    by (rule inv_phase_change [OF inv i, where op' = "?op\<lparr>op_finished := True\<rparr>"])
       (simp_all add: scope_of_def settled)
  show ?thesis
  proof (cases "\<not> tst_isDisposed (m_cache m) \<and> pending_of (m_cache m) (scope_of ?op) = Some i")
    case False
    with step FinishOp i settled have "m' = ?m1"
      by (auto simp add: Let_def pending_of_def scope_of_def split: if_splits option.splits)
    with inv1 show ?thesis by simp
  next
    case True
    then have present: "map_of (statesCaches (m_cache m)) (op_state ?op) \<noteq> None"
      by (auto simp add: pending_of_def scope_of_def split: option.splits)
    from True step FinishOp i settled
    have m': "m' = ?m1\<lparr>m_cache := put_ops (op_state ?op) (op_tabId ?op) None (m_cache m)\<rparr>"
      by (auto simp add: Let_def pending_of_def scope_of_def split: if_splits option.splits)
    have "queue_inv (?m1\<lparr>m_cache := put_ops (op_state ?op) (op_tabId ?op) None (m_cache m)\<rparr>)"
    proof (rule inv_forget [OF inv1, where scope = "scope_of ?op" and i = i])
      show "\<not> tst_isDisposed (m_cache ?m1)" using True by simp
      show "pending_of (m_cache ?m1) (scope_of ?op) = Some i" using True by simp
      show "is_settled (op_phase (m_ops ?m1 ! i))" using i settled by simp
      show "pending_of (m_cache (?m1\<lparr>m_cache := put_ops (op_state ?op) (op_tabId ?op) None (m_cache m)\<rparr>))
              = (pending_of (m_cache ?m1))(scope_of ?op := None)"
        using present by (auto simp add: pending_of_put_ops scope_of_def fun_eq_iff)
    qed simp_all
    with m' show ?thesis by simp
  qed
next
  case DisposeCache
  with step inv show ?thesis by (auto simp add: inv_dispose)
next
  case (StateChanged tabId className v)
  obtain found c1 where got: "tst_getCache className (m_cache m) = (found, c1)"
    by (cases "tst_getCache className (m_cache m)") auto
  show ?thesis
  proof (cases found)
    case None
    with got have "c1 = m_cache m"
      by (auto simp add: tst_getCache_def split: if_splits option.splits)
    with step StateChanged got None inv show ?thesis by auto
  next
    case (Some sc)
    with got tst_getCache_pending [of className "m_cache m" sc c1]
    have "c1 = ensure className (m_cache m)" by simp
    with step StateChanged got Some
    have "m' = m\<lparr>m_cache := put_cache className tabId (Some v) (ensure className (m_cache m))\<rparr>"
      by auto
    then show ?thesis
      using inv by (intro inv_cache_change [OF inv]) simp_all
  qed
qed

lemma inv_initial: "queue_inv (initial_machine names)"
  by (simp add: queue_inv_def inv_lastOp_def inv_first_def in_order_def inv_pending_def
      inv_idle_def initial_machine_def new_TSTCustomStateCache_def pending_of_def)

lemma reachable_inv: "reachable names m \<Longrightarrow> queue_inv m"
  by (induction rule: reachable.induct) (auto intro: inv_initial inv_exec)

lemma run_reachable:
  "reachable names m \<Longrightarrow> run acts m = Some m' \<Longrightarrow> reachable names m'"
proof (induction acts arbitrary: m)
  case Nil
  then show ?case by simp
next
  case (Cons a acts)
  then obtain m1 where a: "exec a m = Some m1" and rest: "run acts m1 = Some m'"
    by (auto split: option.splits)
  from Cons.prems(1) a have "reachable names m1" by (rule reachable.step)
  from Cons.IH [OF this rest] show ?case .
qed

lemma executing_not_settled: "executing ph \<Longrightarrow> \<not> is_settled ph \<and> ph \<noteq> AwaitingLastOp"
  by (cases ph) simp_all

lemma in_order_exclusive: "in_order m \<Longrightarrow> one_at_a_time m"
  unfolding one_at_a_time_def
proof (intro allI impI notI)
  fix i j
  assume order: "in_order m" and i: "i < length (m_ops m)" and j: "j < length (m_ops m)"
    and ij: "i \<noteq> j" and same: "scope_of (m_ops m ! i) = scope_of (m_ops m ! j)"
    and both: "executing (op_phase (m_ops m ! i)) \<and> executing (op_phase (m_ops m ! j))"
  from both executing_not_settled
  have busy: "\<not> is_settled (op_phase (m_ops m ! i))" "op_phase (m_ops m ! i) \<noteq> AwaitingLastOp"
    "\<not> is_settled (op_phase (m_ops m ! j))" "op_phase (m_ops m ! j) \<noteq> AwaitingLastOp"
    by blast+
  show False
  proof (cases "i < j")
    case True
    with order j same busy(4) have "is_settled (op_phase (m_ops m ! i))"
      unfolding in_order_def by blast
    with busy(1) show False by simp
  next
    case False
    with ij have "j < i" by simp
    with order i same busy(2) have "is_settled (op_phase (m_ops m ! j))"
      unfolding in_order_def by metis
    with busy(3) show False by simp
  qed
qed

lemma inv_starts: "queue_inv m \<Longrightarrow> starts_after_predecessors m"
  unfolding starts_after_predecessors_def
proof (intro allI impI conjI)
  fix j m' p
  assume inv: "queue_inv m" and step: "exec (ResumeOp j) m = Some m'"
    and p: "op_lastOp (m_ops m ! j) = Some p"
  from step have "lastResult m (m_ops m ! j) \<noteq> None"
    by (auto split: if_splits option.splits)
  with p show "is_settled (op_phase (m_ops m ! p))"
    by (auto simp add: lastResult_def split: if_splits op_phase.splits)
next
  fix j m' i
  assume inv: "queue_inv m" and step: "exec (ResumeOp j) m = Some m'"
    and i: "i < j" and same: "scope_of (m_ops m ! i) = scope_of (m_ops m ! j)"
  from step have j: "j < length (m_ops m)" by (auto split: if_splits)
  from step j obtain r where "lastResult m (m_ops m ! j) = Some r"
    by (cases "lastResult m (m_ops m ! j)") (auto split: if_splits)
  from earlier_settled [OF inv j this i same]
  show "is_settled (op_phase (m_ops m ! i))" .
qed

lemma overlap_run_result:
  "map_option (\<lambda>m. map (\<lambda>op. (scope_of op, op_phase op)) (m_ops m))
     (run overlap_run (initial_machine None))
   = Some [((1, ''a''), InCallback), ((2, ''a''), InCallback)]"
  by code_simp

lemma overtake_run_result:
  "map_option (\<lambda>m. map (\<lambda>op. (scope_of op, op_phase op)) (m_ops m))
     (run overtake_run (initial_machine None))
   = Some [((1, ''a''), InCallback), ((1, ''a''), AwaitingLastOp), ((2, ''a''), InCallback)]"
  by code_simp

text \<open>
  C1: in every state the mirror cache can reach, for every scope \<^verbatim>\<open>(entryId, stateName)\<close> at
  most one queued operation's callback is executing (the mirror call inside \<^verbatim>\<open>set\<close>
  included); a later operation of a scope has started only if every earlier one of that scope
  has settled, so callbacks of one scope start in submission order; and the step that starts an
  operation can only happen once its immediate predecessor has settled. Operations of different
  scopes are not ordered: there is a reachable state in which the callbacks of two operations of
  different scopes execute at once, and one in which an operation has started while an operation
  of another scope, submitted before it, still waits.
\<close>

theorem queued_operations_serialized:
  "(reachable names m \<longrightarrow> one_at_a_time m \<and> in_order m \<and> starts_after_predecessors m) \<and>
   (\<exists>m1. reachable None m1 \<and>
      map (\<lambda>op. (scope_of op, op_phase op)) (m_ops m1)
        = [((1, ''a''), InCallback), ((2, ''a''), InCallback)]) \<and>
   (\<exists>m2. reachable None m2 \<and>
      map (\<lambda>op. (scope_of op, op_phase op)) (m_ops m2)
        = [((1, ''a''), InCallback), ((1, ''a''), AwaitingLastOp), ((2, ''a''), InCallback)])"
proof (intro conjI impI)
  assume "reachable names m"
  then have inv: "queue_inv m" by (rule reachable_inv)
  then show "in_order m" by (simp add: queue_inv_def)
  then show "one_at_a_time m" by (rule in_order_exclusive)
  from inv show "starts_after_predecessors m" by (rule inv_starts)
next
  from overlap_run_result obtain m1 where run: "run overlap_run (initial_machine None) = Some m1"
    and shape: "map (\<lambda>op. (scope_of op, op_phase op)) (m_ops m1)
        = [((1, ''a''), InCallback), ((2, ''a''), InCallback)]"
    by (cases "run overlap_run (initial_machine None)") auto
  from run_reachable [OF reachable.initial run] shape
  show "\<exists>m1. reachable None m1 \<and>
      map (\<lambda>op. (scope_of op, op_phase op)) (m_ops m1)
        = [((1, ''a''), InCallback), ((2, ''a''), InCallback)]"
    by (intro exI [of _ m1] conjI)
next
  from overtake_run_result obtain m2 where run: "run overtake_run (initial_machine None) = Some m2"
    and shape: "map (\<lambda>op. (scope_of op, op_phase op)) (m_ops m2)
        = [((1, ''a''), InCallback), ((1, ''a''), AwaitingLastOp), ((2, ''a''), InCallback)]"
    by (cases "run overtake_run (initial_machine None)") auto
  from run_reachable [OF reachable.initial run] shape
  show "\<exists>m2. reachable None m2 \<and>
      map (\<lambda>op. (scope_of op, op_phase op)) (m_ops m2)
        = [((1, ''a''), InCallback), ((1, ''a''), AwaitingLastOp), ((2, ''a''), InCallback)]"
    by (intro exI [of _ m2] conjI)
qed

lemma overtake_run_blocked:
  "map_option (\<lambda>m. ()) (exec (ResumeOp 1) (the (run overtake_run (initial_machine None)))) = None"
  by code_simp

text \<open>
  An instance: \<^verbatim>\<open>set(1, 'a', true)\<close>, \<^verbatim>\<open>set(1, 'a', false)\<close>, \<^verbatim>\<open>set(2, 'a', true)\<close> are called,
  then the first and the third start. The second cannot start while the first awaits the mirror.
\<close>

theorem queued_operations_serialized_witness:
  "reachable None (the (run overtake_run (initial_machine None))) \<and>
   map (\<lambda>op. (scope_of op, op_phase op)) (m_ops (the (run overtake_run (initial_machine None))))
     = [((1, ''a''), InCallback), ((1, ''a''), AwaitingLastOp), ((2, ''a''), InCallback)] \<and>
   one_at_a_time (the (run overtake_run (initial_machine None))) \<and>
   in_order (the (run overtake_run (initial_machine None))) \<and>
   starts_after_predecessors (the (run overtake_run (initial_machine None))) \<and>
   exec (ResumeOp 1) (the (run overtake_run (initial_machine None))) = None"
proof -
  let ?m = "the (run overtake_run (initial_machine None))"
  from overtake_run_result obtain m2 where run: "run overtake_run (initial_machine None) = Some m2"
    and shape: "map (\<lambda>op. (scope_of op, op_phase op)) (m_ops m2)
        = [((1, ''a''), InCallback), ((1, ''a''), AwaitingLastOp), ((2, ''a''), InCallback)]"
    by (cases "run overtake_run (initial_machine None)") auto
  from run have m: "?m = m2" by simp
  have reach: "reachable None ?m"
    unfolding m by (rule run_reachable [OF reachable.initial run])
  from queued_operations_serialized [of None ?m] reach
  have "one_at_a_time ?m \<and> in_order ?m \<and> starts_after_predecessors ?m" by blast
  moreover from overtake_run_blocked have "exec (ResumeOp 1) ?m = None"
    by (cases "exec (ResumeOp 1) ?m") simp_all
  ultimately show ?thesis using reach shape m by simp
qed


section \<open>An awaited \<^verbatim>\<open>set\<close> as a run of the queue\<close>

lemma map_entry_same: "(\<And>v. map_of al k = Some v \<Longrightarrow> f v = v) \<Longrightarrow> AList.map_entry k f al = al"
  by (induction al) (auto simp add: prod_eq_iff)

lemma map_entry_twice: "AList.map_entry k f (AList.map_entry k g al) = AList.map_entry k (f \<circ> g) al"
  by (induction al) auto

lemma map_entry_commute:
  "(\<And>v. f (g v) = g (f v)) \<Longrightarrow>
   AList.map_entry k f (AList.map_entry k' g al) = AList.map_entry k' g (AList.map_entry k f al)"
  by (induction al) auto

lemma put_ops_fields [simp]:
  "classNames (put_ops state tabId p c) = classNames c"
  by (simp add: put_ops_def)

lemma allowed_put_ops [simp]: "allowed (put_ops state tabId p c) state' = allowed c state'"
  by (simp add: allowed_def)

lemma believed_put_ops [simp]: "believed (put_ops state tabId p c) tabId' state' = believed c tabId' state'"
  by (auto simp add: believed_def put_ops_def map_of_map_entry split: option.splits)

lemma put_ops_put_cache:
  "put_ops state tabId p (put_cache state' tabId' v c) = put_cache state' tabId' v (put_ops state tabId p c)"
  by (simp add: put_ops_def put_cache_def map_entry_commute)

lemma put_ops_twice: "put_ops state tabId p (put_ops state tabId q c) = put_ops state tabId p c"
  by (simp add: put_ops_def map_entry_twice comp_def)

lemma put_ops_idle: "pending_of c (tabId, state) = None \<Longrightarrow> put_ops state tabId None c = c"
proof -
  assume idle: "pending_of c (tabId, state) = None"
  have "AList.map_entry state (\<lambda>sc. sc\<lparr>sc_ops := (sc_ops sc)(tabId := None)\<rparr>) (statesCaches c)
          = statesCaches c"
  proof (rule map_entry_same)
    fix sc assume "map_of (statesCaches c) state = Some sc"
    with idle have "sc_ops sc tabId = None" by (simp add: pending_of_def)
    then have "(sc_ops sc)(tabId := None) = sc_ops sc" by (simp add: fun_upd_idem)
    then show "sc\<lparr>sc_ops := (sc_ops sc)(tabId := None)\<rparr> = sc" by simp
  qed
  then show ?thesis by (simp add: put_ops_def)
qed

lemma ensure_present_same:
  "map_of (statesCaches c) state \<noteq> None \<Longrightarrow> ensure state c = c"
  by (auto simp add: ensure_def tst_getCache_def split: option.splits)

lemma put_ops_present:
  "(map_of (statesCaches (put_ops state tabId p c)) state' \<noteq> None)
     = (map_of (statesCaches c) state' \<noteq> None)"
  by (auto simp add: put_ops_def map_of_map_entry split: option.splits)

lemma put_cache_present:
  "(map_of (statesCaches (put_cache state tabId v c)) state' \<noteq> None)
     = (map_of (statesCaches c) state' \<noteq> None)"
  by (auto simp add: put_cache_def map_of_map_entry split: option.splits)


text \<open>
  The function \<^verbatim>\<open>tst_set\<close> above is what the machine does when a call of \<^verbatim>\<open>set\<close> is awaited
  on a scope with nothing pending: the same cache, the same mirror calls, and the returned
  \<^verbatim>\<open>value\<close> is the result.
\<close>

lemma finish_cache:
  "(if tst_isDisposed c then c
    else case map_of (statesCaches c) state of
           Some sc \<Rightarrow> if sc_ops sc tabId = Some i then put_ops state tabId None c else c
         | None \<Rightarrow> c)
   = (if \<not> tst_isDisposed c \<and> pending_of c (tabId, state) = Some i
      then put_ops state tabId None c else c)"
  by (auto simp add: pending_of_def split: option.splits)

lemma exec_FinishOp_eq:
  "i < length (m_ops m) \<Longrightarrow> \<not> op_finished (m_ops m ! i) \<Longrightarrow> op_phase (m_ops m ! i) = Settled r \<Longrightarrow>
   exec (FinishOp i) m =
     Some (m\<lparr>m_cache := (if \<not> tst_isDisposed (m_cache m) \<and>
                              pending_of (m_cache m) (scope_of (m_ops m ! i)) = Some i
                           then put_ops (op_state (m_ops m ! i)) (op_tabId (m_ops m ! i)) None (m_cache m)
                           else m_cache m),
            m_ops := (m_ops m)[i := (m_ops m ! i)\<lparr>op_finished := True\<rparr>]\<rparr>)"
  by (simp add: Let_def finish_cache scope_of_def)

lemma set_alone_refines:
  assumes quiet: "pending_of (m_cache m) (tabId, state) = None"
  shows "\<exists>m'. run_set_alone reply tabId state v m = Some m' \<and>
           m_cache m' = fst (snd (tst_set reply tabId state v (m_cache m))) \<and>
           m_calls m' = m_calls m @ snd (snd (tst_set reply tabId state v (m_cache m))) \<and>
           (if allowed (m_cache m) state
            then length (m_ops m') = Suc (length (m_ops m)) \<and>
                 op_finished (m_ops m' ! length (m_ops m)) \<and>
                 op_outerError (m_ops m' ! length (m_ops m)) = None \<and>
                 map_option Inr (op_value (m_ops m' ! length (m_ops m)))
                   = Some (fst (tst_set reply tabId state v (m_cache m)))
            else m_ops m' = m_ops m \<and> fst (tst_set reply tabId state v (m_cache m)) = Inr False)"
proof (cases "allowed (m_cache m) state")
  case False
  then have "tst_getCache state (m_cache m) = (None, m_cache m)"
    by (rule tst_getCache_not_allowed)
  then have "exec (CallSet tabId state v) m = Some m"
    by (simp add: queueOp_begin_def)
  then have "run_set_alone reply tabId state v m = Some m"
    by (simp add: run_set_alone_def)
  with False show ?thesis by (simp add: tst_set_eq)
next
  case True
  let ?c = "m_cache m"
  let ?n = "length (m_ops m)"
  let ?c1 = "put_ops state tabId (Some ?n) (ensure state ?c)"
  let ?new = "\<lparr>op_tabId = tabId, op_state = state, op_kind = SetOp v,
               op_setOpReturnValue = False, op_lastOp = None,
               op_phase = AwaitingLastOp, op_value = Some False, op_outerError = None,
               op_finished = False\<rparr>"
  let ?m1 = "m\<lparr>m_cache := ?c1, m_ops := m_ops m @ [?new]\<rparr>"
  from True obtain sc where got: "tst_getCache state ?c = (Some sc, ensure state ?c)"
    using tst_getCache_allowed by blast
  from tst_getCache_pending [OF got, of tabId] quiet
  have last: "sc_ops sc tabId = None" and present: "map_of (statesCaches (ensure state ?c)) state \<noteq> None"
    by simp_all
  have live: "\<not> tst_isDisposed ?c" using True by (simp add: allowed_def)
  have step1: "exec (CallSet tabId state v) m = Some ?m1"
    using got last by (simp add: queueOp_begin_def)
  have present1: "map_of (statesCaches ?c1) state \<noteq> None"
    using present put_ops_present [of state tabId "Some ?n" "ensure state ?c" state] by blast
  have ens1: "ensure state ?c1 = ?c1" using present1 by (rule ensure_present_same)
  have pend1: "pending_of ?c1 (tabId, state) = Some ?n"
    using present by (simp add: pending_of_put_ops)
  have forget: "put_ops state tabId None ?c1 = ensure state ?c"
    using quiet by (simp add: put_ops_twice put_ops_idle)
  have ready: "lastResult ?m1 (m_ops ?m1 ! ?n) = Some False"
    by (simp add: lastResult_def)
  let ?call = "\<lparr>mc_tabIds = [tabId], mc_states = [state], mc_present = v\<rparr>"
  show ?thesis
  proof (cases "v = believed ?c tabId state")
    case same: True
    let ?m2 = "?m1\<lparr>m_ops := m_ops m @ [?new\<lparr>op_phase := CallbackReturned (Inr True)\<rparr>]\<rparr>"
    let ?m4 = "?m1\<lparr>m_ops := m_ops m @ [?new\<lparr>op_value := Some True, op_phase := Settled False\<rparr>]\<rparr>"
    let ?m5 = "m\<lparr>m_cache := ensure state ?c,
                 m_ops := m_ops m @ [?new\<lparr>op_value := Some True, op_phase := Settled False,
                                          op_finished := True\<rparr>]\<rparr>"
    have called: "callback_begin ?new ?m1 = (CallbackReturned (Inr True), ?m1)"
      using same True by (simp add: callback_begin_def set_callback_begin_eq ens1)
    have step2: "exec (ResumeOp ?n) ?m1 = Some ?m2"
      using ready live called by (simp add: set_phase_def)
    have step4: "exec (ContinueOp ?n) ?m2 = Some ?m4"
      by (simp add: Let_def)
    have step5: "exec (FinishOp ?n) ?m4 = Some ?m5"
      using live pend1 forget
      by (subst exec_FinishOp_eq [where r = False]) (simp_all add: scope_of_def)
    have "run_set_alone reply tabId state v m = Some ?m5"
      unfolding run_set_alone_def Let_def step1 using step2 step4 step5 by simp
    with same True show ?thesis
      by (auto simp add: tst_set_eq)
  next
    case differs: False
    let ?m2 = "?m1\<lparr>m_calls := m_calls m @ [?call],
                  m_ops := m_ops m @ [?new\<lparr>op_phase := InCallback\<rparr>]\<rparr>"
    let ?res = "reply = Acknowledged"
    let ?c3 = "if reply = Acknowledged then put_cache state tabId (Some v) ?c1 else ?c1"
    have fin: "set_callback_end reply tabId state v ?c1 = (Inr ?res, ?c3)"
      using True by (cases reply) (simp_all add: set_callback_end_eq ens1)
    let ?m3 = "?m2\<lparr>m_cache := ?c3,
                  m_ops := m_ops m @ [?new\<lparr>op_phase := CallbackReturned (Inr ?res)\<rparr>]\<rparr>"
    let ?m4 = "?m3\<lparr>m_ops := m_ops m @ [?new\<lparr>op_value := Some ?res, op_phase := Settled False\<rparr>]\<rparr>"
    let ?c5 = "if reply = Acknowledged then put_cache state tabId (Some v) (ensure state ?c)
               else ensure state ?c"
    let ?m5 = "m\<lparr>m_cache := ?c5, m_calls := m_calls m @ [?call],
                 m_ops := m_ops m @ [?new\<lparr>op_value := Some ?res, op_phase := Settled False,
                                          op_finished := True\<rparr>]\<rparr>"
    have called: "callback_begin ?new ?m1 = (InCallback, ?m1\<lparr>m_calls := m_calls m @ [?call]\<rparr>)"
      using differs True by (simp add: callback_begin_def set_callback_begin_eq ens1)
    have step2: "exec (ResumeOp ?n) ?m1 = Some ?m2"
      using ready live called by (simp add: set_phase_def)
    have step3: "exec (MirrorReplies ?n reply) ?m2 = Some ?m3"
      using fin by (simp add: set_phase_def)
    have step4: "exec (ContinueOp ?n) ?m3 = Some ?m4"
      by (simp add: Let_def)
    have live3: "\<not> tst_isDisposed ?c3" using live by simp
    have pend3: "pending_of ?c3 (tabId, state) = Some ?n" using pend1 by simp
    have forget3: "put_ops state tabId None ?c3 = ?c5"
      using forget by (simp add: put_ops_put_cache)
    have step5: "exec (FinishOp ?n) ?m4 = Some ?m5"
      using live3 pend3 forget3
      by (subst exec_FinishOp_eq [where r = False]) (simp_all add: scope_of_def)
    have "run_set_alone reply tabId state v m = Some ?m5"
      unfolding run_set_alone_def Let_def step1 using step2 step3 step4 step5 by simp
    with differs True show ?thesis
      by (cases reply) (auto simp add: tst_set_eq)
  qed
qed

end
